theory Spec2Isabelle
  imports Main "HOL-Library.Char_ord" "HOL-Library.List_Lexorder"
begin

section \<open>The mini version-control simulator \<^verbatim>\<open>Vcs_oops.cpp\<close>\<close>

text \<open>
  The program keeps \<^verbatim>\<open>File\<close> objects on the C++ heap and passes them around as raw
  pointers (\<^verbatim>\<open>File*\<close>): the staging vector, the working vector and every commit's
  \<^verbatim>\<open>std::map\<close> hold pointers, and \<^verbatim>\<open>std::find\<close> compares pointers. The embedding
  therefore has an explicit store: the heap is a list of file objects, a pointer is an
  index into it, and \<^verbatim>\<open>new\<close> appends a cell. Nothing the working or staging vectors
  point to is ever deleted by the program, so cells are never reclaimed. (The only
  deletion is of a commit's own clone when a second file of the same name overwrites its
  map entry; that cell stays behind unreferenced.)

  Outside the process there is the file system and the console. The file system is a
  map from path to content in which every call succeeds (every \<^verbatim>\<open>ofstream\<close> opens,
  every \<^verbatim>\<open>create_directory\<close> returns); paths are opaque keys. Every console statement
  and every file-system effect is also appended, in program order, to a trace.
\<close>

subsection \<open>Class \<^verbatim>\<open>File\<close> (lines 15-61)\<close>

type_synonym addr = nat

record File =
  name :: string
  content :: string
  stagedContent :: string
  modified :: bool

text \<open>The constructor \<^verbatim>\<open>TextFile(n, c)\<close>, which is that of \<^verbatim>\<open>File\<close>: content and staged content start equal, not modified.\<close>

definition TextFile :: "string \<Rightarrow> string \<Rightarrow> File" where
  "TextFile n c = \<lparr>name = n, content = c, stagedContent = c, modified = False\<rparr>"

definition updateContent :: "string \<Rightarrow> File \<Rightarrow> File" where
  "updateContent c f = f\<lparr>stagedContent := c, modified := True\<rparr>"

definition clearModified :: "File \<Rightarrow> File" where
  "clearModified f = f\<lparr>modified := False, content := stagedContent f\<rparr>"

text \<open>\<^verbatim>\<open>TextFile::clone\<close> copy-constructs: all four fields are copied.\<close>

definition clone :: "File \<Rightarrow> File" where
  "clone f = f"

subsection \<open>The process state\<close>

datatype event =
    Print string
  | Write string string
  | MkDir string

text \<open>
  \<^verbatim>\<open>Commit\<close> (lines 73-99). The field \<^verbatim>\<open>files\<close> is a
  \<^verbatim>\<open>map<string, unique_ptr<File>>\<close>: an association list kept in increasing key order,
  as the ordered map iterates.
\<close>

record commit =
  getId :: int
  message :: string
  timestamp :: string
  files :: "(string \<times> addr) list"

text \<open>
  \<^verbatim>\<open>commits\<close>, \<^verbatim>\<open>stagedFiles\<close> and \<^verbatim>\<open>nextCommitId\<close> are the members of the
  \<^verbatim>\<open>Repository\<close> singleton, \<^verbatim>\<open>workingFiles\<close> is the member of \<^verbatim>\<open>VCS\<close>.
\<close>

record state =
  heap :: "File list"
  disk :: "string \<rightharpoonup> string"
  trace :: "event list"
  commits :: "commit list"
  stagedFiles :: "addr list"
  nextCommitId :: int
  workingFiles :: "addr list"

datatype fault = SignedOverflow

definition new :: "File \<Rightarrow> state \<Rightarrow> addr \<times> state" where
  "new f s = (length (heap s), s\<lparr>heap := heap s @ [f]\<rparr>)"

definition cout :: "string \<Rightarrow> state \<Rightarrow> state" where
  "cout l s = s\<lparr>trace := trace s @ [Print l]\<rparr>"

definition ofstream :: "string \<Rightarrow> string \<Rightarrow> state \<Rightarrow> state" where
  "ofstream p c s = s\<lparr>disk := (disk s)(p \<mapsto> c), trace := trace s @ [Write p c]\<rparr>"

definition create_directory :: "string \<Rightarrow> state \<Rightarrow> state" where
  "create_directory p s = s\<lparr>trace := trace s @ [MkDir p]\<rparr>"

text \<open>\<^verbatim>\<open>std::to_string\<close> on an \<^verbatim>\<open>int\<close>: decimal digits, a minus sign when negative.\<close>

fun digits :: "nat \<Rightarrow> string" where
  "digits n = (if n < 10 then [''0123456789'' ! n]
               else digits (n div 10) @ [''0123456789'' ! (n mod 10)])"

declare digits.simps [simp del]

definition to_string :: "int \<Rightarrow> string" where
  "to_string i = (if i < 0 then ''-'' @ digits (nat (- i)) else digits (nat i))"

subsection \<open>\<^verbatim>\<open>File::saveToDisk\<close> and \<^verbatim>\<open>File::loadFromDisk\<close> (lines 45-49, 63-70)\<close>

definition saveToDisk :: "File \<Rightarrow> state \<Rightarrow> state" where
  "saveToDisk f s = ofstream (name f) (content f) s"

text \<open>
  The \<^verbatim>\<open>getline\<close> loop of \<^verbatim>\<open>loadFromDisk\<close>: every line is appended with a newline,
  so a last line without one gains it. The first argument is the line read so far.
\<close>

fun getlines :: "string \<Rightarrow> string \<Rightarrow> string" where
  "getlines line [] = (if line = [] then [] else line @ [CHR 0x0A])"
| "getlines line (c # cs) =
     (if c = CHR 0x0A then line @ [CHR 0x0A] @ getlines [] cs
      else getlines (line @ [c]) cs)"

definition loadFromDisk :: "string \<Rightarrow> state \<Rightarrow> addr option \<times> state" where
  "loadFromDisk fname s =
     (case disk s fname of
        None \<Rightarrow> (None, s)
      | Some bytes \<Rightarrow>
          (let (f, s') = new (TextFile fname (getlines [] bytes)) s in (Some f, s')))"

subsection \<open>Class \<^verbatim>\<open>Commit\<close> (lines 73-99)\<close>

text \<open>\<^verbatim>\<open>m[k] = v\<close> on the ordered map: insert in key order, or replace the entry of an equal key.\<close>

fun map_assign :: "string \<Rightarrow> addr \<Rightarrow> (string \<times> addr) list \<Rightarrow> (string \<times> addr) list" where
  "map_assign k v [] = [(k, v)]"
| "map_assign k v (p # m) =
     (if k < fst p then (k, v) # p # m
      else if k = fst p then (k, v) # m
      else p # map_assign k v m)"

text \<open>
  The loop of the constructor (line 84): each staged file is cloned into a new heap cell
  and the clone is stored under the file's name.
\<close>

fun Commit_files :: "addr list \<Rightarrow> (string \<times> addr) list \<Rightarrow> state \<Rightarrow> (string \<times> addr) list \<times> state" where
  "Commit_files [] m s = (m, s)"
| "Commit_files (f # staged) m s =
     (let (a, s') = new (clone (heap s ! f)) s
      in Commit_files staged (map_assign (name (heap s ! f)) a m) s')"

text \<open>
  The constructor. \<open>now\<close> is what \<^verbatim>\<open>ctime\<close> returns at the call; a final newline
  is dropped.
\<close>

definition Commit :: "int \<Rightarrow> string \<Rightarrow> string \<Rightarrow> addr list \<Rightarrow> state \<Rightarrow> commit \<times> state" where
  "Commit i msg now staged s =
     (let ts = (if now \<noteq> [] \<and> last now = CHR 0x0A then butlast now else now);
          (m, s') = Commit_files staged [] s
      in (\<lparr>getId = i, message = msg, timestamp = ts, files = m\<rparr>, s'))"

text \<open>\<^verbatim>\<open>getSnapshot\<close> (lines 92-96): a new map of new clones, one per entry.\<close>

fun getSnapshot_loop :: "(string \<times> addr) list \<Rightarrow> (string \<times> addr) list \<Rightarrow> state \<Rightarrow> (string \<times> addr) list \<times> state" where
  "getSnapshot_loop [] snapshot s = (snapshot, s)"
| "getSnapshot_loop (p # ps) snapshot s =
     (let (a, s') = new (clone (heap s ! snd p)) s
      in getSnapshot_loop ps (map_assign (fst p) a snapshot) s')"

definition getSnapshot :: "commit \<Rightarrow> state \<Rightarrow> (string \<times> addr) list \<times> state" where
  "getSnapshot c s = getSnapshot_loop (files c) [] s"

subsection \<open>Class \<^verbatim>\<open>Repository\<close> (lines 102-194)\<close>

text \<open>The constructor: the counter starts at 1 and the archive root is created.\<close>

definition Repository :: "(string \<rightharpoonup> string) \<Rightarrow> state" where
  "Repository d =
     \<lparr>heap = [], disk = d, trace = [MkDir ''.vcs''], commits = [], stagedFiles = [],
      nextCommitId = 1, workingFiles = []\<rparr>"

definition addFile :: "addr \<Rightarrow> state \<Rightarrow> state" where
  "addFile f s =
     (if f \<notin> set (stagedFiles s)
      then cout (''Added file to staging: '' @ name (heap s ! f))
             (s\<lparr>stagedFiles := stagedFiles s @ [f]\<rparr>)
      else s)"

text \<open>The first loop of \<^verbatim>\<open>commit\<close> (lines 125-130).\<close>

definition editableFiles :: "state \<Rightarrow> addr list" where
  "editableFiles s = filter (\<lambda>f. modified (heap s ! f)) (stagedFiles s)"

text \<open>
  The second loop (lines 140-149): archive write of the staged content, then
  \<^verbatim>\<open>clearModified\<close>, then \<^verbatim>\<open>saveToDisk\<close>.
\<close>

fun commit_loop :: "string \<Rightarrow> addr list \<Rightarrow> state \<Rightarrow> state" where
  "commit_loop commitPath [] s = s"
| "commit_loop commitPath (f # fs) s =
     (let s1 = ofstream (commitPath @ ''/'' @ name (heap s ! f)) (stagedContent (heap s ! f)) s;
          s2 = s1\<lparr>heap := (heap s1)[f := clearModified (heap s1 ! f)]\<rparr>;
          s3 = saveToDisk (heap s2 ! f) s2
      in commit_loop commitPath fs s3)"

definition INT_MAX :: int where
  "INT_MAX = 2147483647"

text \<open>
  \<^verbatim>\<open>commit\<close> (lines 124-158). \<^verbatim>\<open>nextCommitId++\<close> on an \<^verbatim>\<open>int\<close> that holds
  \<^verbatim>\<open>INT_MAX\<close> is undefined behaviour; the embedding stops there with a fault instead
  of choosing a value. The third loop erases every occurrence of each committed pointer
  from the staging vector.
\<close>

definition commit :: "string \<Rightarrow> string \<Rightarrow> state \<Rightarrow> fault + state" where
  "commit msg now s =
     (let editable = editableFiles s in
      if editable = [] then Inr (cout ''No edited files to commit! Edit files first.'' s)
      else
        let commitPath = ''.vcs/commit_'' @ to_string (nextCommitId s);
            s1 = create_directory commitPath s;
            s2 = commit_loop commitPath editable s1
        in if nextCommitId s2 = INT_MAX then Inl SignedOverflow
           else
             let (c, s3) = Commit (nextCommitId s2) msg now editable s2;
                 s4 = s3\<lparr>nextCommitId := nextCommitId s3 + 1, commits := commits s3 @ [c]\<rparr>;
                 s5 = s4\<lparr>stagedFiles := fold removeAll editable (stagedFiles s4)\<rparr>
             in Inr (cout ''Commit done! Changes saved to .vcs and original files updated.'' s5))"

definition showContent :: "File \<Rightarrow> state \<Rightarrow> state" where
  "showContent f s = cout (''[TextFile] '' @ name f @ '': '' @ stagedContent f) s"

definition showDetails :: "commit \<Rightarrow> state \<Rightarrow> state" where
  "showDetails c s =
     fold (\<lambda>p. showContent (heap s ! snd p)) (files c)
       (cout (''Commit '' @ to_string (getId c) @ '': '' @ message c @ '' at '' @ timestamp c) s)"

definition log :: "state \<Rightarrow> state" where
  "log s =
     (if commits s = [] then cout ''No commits yet.'' s
      else fold (\<lambda>c s'. cout ''--------------------'' (showDetails c s')) (commits s) s)"

text \<open>The inner loop of \<^verbatim>\<open>checkout\<close> (lines 176-181), over the snapshot map in key order.\<close>

fun checkout_loop :: "(string \<times> addr) list \<Rightarrow> state \<Rightarrow> state" where
  "checkout_loop [] s = s"
| "checkout_loop (p # ps) s =
     (let s1 = s\<lparr>workingFiles := workingFiles s @ [snd p]\<rparr>;
          s2 = ofstream (name (heap s1 ! snd p)) (content (heap s1 ! snd p)) s1
      in checkout_loop ps s2)"

text \<open>\<^verbatim>\<open>checkout\<close> (lines 171-187): the first commit with the id is taken.\<close>

definition checkout :: "int \<Rightarrow> state \<Rightarrow> state" where
  "checkout commitId s =
     (case find (\<lambda>c. getId c = commitId) (commits s) of
        None \<Rightarrow> cout ''Commit ID not found!'' s
      | Some c \<Rightarrow>
          (let (snapshot, s1) = getSnapshot c s;
               s2 = s1\<lparr>workingFiles := []\<rparr>;
               s3 = checkout_loop snapshot s2
           in cout (''Checked out commit '' @ to_string commitId @ '', files restored on disk.'') s3))"

subsection \<open>Class \<^verbatim>\<open>VCS\<close> (lines 197-269)\<close>

text \<open>
  The command line is taken as already split into its verb and argument, and what the
  user types at a prompt travels with the command: for \<open>Add\<close> the answer to
  ``Create new?'' and, when the answer to ``edit now?'' is yes, the line entered; for
  \<open>Edit\<close> the line entered; for \<open>CommitCmd\<close> the message and the clock reading.
\<close>

datatype command =
    Add string bool "string option"
  | Edit string string
  | CommitCmd string string
  | Log
  | Checkout int
  | Unknown

definition editFile :: "addr \<Rightarrow> string \<Rightarrow> state \<Rightarrow> state" where
  "editFile f newContent s =
     (let s1 = cout (''Enter new content for '' @ name (heap s ! f) @ '': '') s;
          s2 = s1\<lparr>heap := (heap s1)[f := updateContent newContent (heap s1 ! f)]\<rparr>;
          s3 = cout (name (heap s2 ! f) @ '' updated in memory (not saved to disk).'') s2;
          s4 = cout ''Note: Changes are staged. Use 'commit <msg>' to save these changes permanently.'' s3
      in addFile f s4)"

text \<open>The tail of the \<^verbatim>\<open>add\<close> branch (lines 220-223).\<close>

definition add_track :: "addr \<Rightarrow> state \<Rightarrow> state" where
  "add_track f s =
     addFile f (if f \<notin> set (workingFiles s) then s\<lparr>workingFiles := workingFiles s @ [f]\<rparr> else s)"

fun runCommand :: "command \<Rightarrow> state \<Rightarrow> fault + state" where
  "runCommand (Add fname create editNow) s =
     (case loadFromDisk fname s of
        (Some f, s1) \<Rightarrow> Inr (add_track f s1)
      | (None, s1) \<Rightarrow>
          (let s2 = cout ''File does not exist on disk. Create new? (y/n): '' s1 in
           if create then
             (let (f, s3) = new (TextFile fname []) s2;
                  s4 = ofstream fname [] s3;
                  s5 = cout ''File created.'' s4;
                  s6 = cout ''Do you want to edit now? (y/n): '' s5;
                  s7 = (case editNow of Some c \<Rightarrow> editFile f c s6 | None \<Rightarrow> s6)
              in Inr (add_track f s7))
           else Inr s2))"
| "runCommand (Edit fname newContent) s =
     (case find (\<lambda>f. name (heap s ! f) = fname) (workingFiles s) of
        Some f \<Rightarrow> Inr (editFile f newContent s)
      | None \<Rightarrow> Inr (cout ''File not found in working directory!'' s))"
| "runCommand (CommitCmd msg now) s = commit msg now s"
| "runCommand Log s = Inr (log s)"
| "runCommand (Checkout commitId) s = Inr (checkout commitId s)"
| "runCommand Unknown s = Inr (cout ''Unknown command!'' s)"

text \<open>
  The loop of \<^verbatim>\<open>main\<close> (lines 276-281), up to the \<^verbatim>\<open>exit\<close> command. What follows it
  (the destructor of \<^verbatim>\<open>VCS\<close> removes the archive directory) touches the file system only.
\<close>

fun run :: "command list \<Rightarrow> state \<Rightarrow> fault + state" where
  "run [] s = Inr (cout ''>> '' s)"
| "run (c # cs) s =
     (case runCommand c (cout ''>> '' s) of
        Inl e \<Rightarrow> Inl e
      | Inr s' \<Rightarrow> run cs s')"

definition main :: "command list \<Rightarrow> (string \<rightharpoonup> string) \<Rightarrow> fault + state" where
  "main cmds d =
     run cmds
       (cout ''Mini VCS running. Commands: add <file>, edit <file>, commit <msg>, log, checkout <id>, exit''
          (Repository d))"

subsection \<open>Well-formed states\<close>

text \<open>
  The addresses a commit owns are those its map holds. A snapshot cell is sound when it
  is allocated, carries the name it is filed under, is not modified, and its content
  and staged content agree (it was cloned right after \<^verbatim>\<open>clearModified\<close>).
\<close>

definition sorted_keys :: "(string \<times> addr) list \<Rightarrow> bool" where
  "sorted_keys m = sorted_wrt (<) (map fst m)"

definition owned :: "state \<Rightarrow> addr set" where
  "owned s = (\<Union>c \<in> set (commits s). snd ` set (files c))"

definition snapshot_ok :: "File list \<Rightarrow> string \<times> addr \<Rightarrow> bool" where
  "snapshot_ok h p \<longleftrightarrow>
     snd p < length h \<and> name (h ! snd p) = fst p \<and> \<not> modified (h ! snd p) \<and>
     content (h ! snd p) = stagedContent (h ! snd p)"

text \<open>
  The invariant of every state the program reaches: staged and working pointers are
  allocated, no pointer is staged twice, the history carries the ids 1, 2, ... in order
  and the counter is one past the last, every commit's map is in strict key order with
  sound cells, and no staged or working pointer points into a commit.
\<close>

definition wellformed :: "state \<Rightarrow> bool" where
  "wellformed s \<longleftrightarrow>
     (\<forall>f \<in> set (stagedFiles s). f < length (heap s)) \<and>
     (\<forall>f \<in> set (workingFiles s). f < length (heap s)) \<and>
     distinct (stagedFiles s) \<and>
     map getId (commits s) = [1..int (length (commits s))] \<and>
     nextCommitId s = int (length (commits s)) + 1 \<and>
     (\<forall>c \<in> set (commits s). sorted_keys (files c) \<and> (\<forall>p \<in> set (files c). snapshot_ok (heap s) p)) \<and>
     owned s \<inter> (set (stagedFiles s) \<union> set (workingFiles s)) = {}"

subsection \<open>Auxiliary functions\<close>

text \<open>A run of map assignments, as the loops of the constructor and of \<^verbatim>\<open>getSnapshot\<close> perform them.\<close>

definition assign_all :: "(string \<times> addr) list \<Rightarrow> (string \<times> addr) list \<Rightarrow> (string \<times> addr) list" where
  "assign_all kvs m = fold (\<lambda>p. map_assign (fst p) (snd p)) kvs m"

text \<open>
  What processing the files \<open>fs\<close> in the order of the list leaves on the trace: for each
  file the write into the commit's archive directory, then the write to the file's own path.
\<close>

definition commit_events :: "string \<Rightarrow> File list \<Rightarrow> addr list \<Rightarrow> event list" where
  "commit_events commitPath h fs =
     concat (map (\<lambda>f. [Write (commitPath @ ''/'' @ name (h ! f)) (stagedContent (h ! f)),
                        Write (name (h ! f)) (stagedContent (h ! f))]) fs)"

text \<open>The heap after \<^verbatim>\<open>clearModified\<close> has been called on each pointer of \<open>fs\<close>.\<close>

definition cleared :: "addr list \<Rightarrow> File list \<Rightarrow> File list" where
  "cleared fs h = map (\<lambda>a. if a \<in> set fs then clearModified (h ! a) else h ! a) [0..<length h]"

text \<open>The part of the state the invariant reads: everything but the disk and the trace.\<close>

definition core :: "state \<Rightarrow> File list \<times> commit list \<times> addr list \<times> int \<times> addr list" where
  "core s = (heap s, commits s, stagedFiles s, nextCommitId s, workingFiles s)"

text \<open>
  How a later state relates to an earlier one: the heap has only grown, the history has
  only grown at its end, the cells the earlier commits own hold what they held, and
  every cell owned since was allocated since.
\<close>

definition extends :: "state \<Rightarrow> state \<Rightarrow> bool" where
  "extends s s' \<longleftrightarrow>
     length (heap s) \<le> length (heap s') \<and>
     (\<exists>cs. commits s' = commits s @ cs) \<and>
     (\<forall>a \<in> owned s. heap s' ! a = heap s ! a) \<and>
     (\<forall>a \<in> owned s'. a \<in> owned s \<or> length (heap s) \<le> a)"

subsection \<open>Example states\<close>

text \<open>One file, added from disk and not edited.\<close>

definition ex_clean :: state where
  "ex_clean =
     \<lparr>heap = [\<lparr>name = ''a.txt'', content = ''hello'', stagedContent = ''hello'', modified = False\<rparr>],
      disk = [''a.txt'' \<mapsto> ''hello''], trace = [], commits = [], stagedFiles = [0],
      nextCommitId = 1, workingFiles = [0]\<rparr>"

text \<open>
  Three staged files, in staging order \<^verbatim>\<open>b\<close>, \<^verbatim>\<open>a\<close>, \<^verbatim>\<open>c\<close>; the first two are
  edited, the third is clean.
\<close>

definition ex_staged :: state where
  "ex_staged =
     \<lparr>heap = [\<lparr>name = ''b'', content = [], stagedContent = ''x'', modified = True\<rparr>,
              \<lparr>name = ''a'', content = [], stagedContent = ''y'', modified = True\<rparr>,
              \<lparr>name = ''c'', content = ''z'', stagedContent = ''z'', modified = False\<rparr>],
      disk = [''b'' \<mapsto> [], ''a'' \<mapsto> [], ''c'' \<mapsto> ''z''], trace = [], commits = [],
      stagedFiles = [0, 1, 2], nextCommitId = 1, workingFiles = [0, 1, 2]\<rparr>"

text \<open>The state that committing \<open>ex_staged\<close> leaves: commit 1 owns the cells 3 and 4.\<close>

definition ex_committed :: state where
  "ex_committed =
     \<lparr>heap = [\<lparr>name = ''b'', content = ''x'', stagedContent = ''x'', modified = False\<rparr>,
              \<lparr>name = ''a'', content = ''y'', stagedContent = ''y'', modified = False\<rparr>,
              \<lparr>name = ''c'', content = ''z'', stagedContent = ''z'', modified = False\<rparr>,
              \<lparr>name = ''b'', content = ''x'', stagedContent = ''x'', modified = False\<rparr>,
              \<lparr>name = ''a'', content = ''y'', stagedContent = ''y'', modified = False\<rparr>],
      disk = [''b'' \<mapsto> [], ''a'' \<mapsto> [], ''c'' \<mapsto> ''z'', ''.vcs/commit_1/b'' \<mapsto> ''x'',
              ''b'' \<mapsto> ''x'', ''.vcs/commit_1/a'' \<mapsto> ''y'', ''a'' \<mapsto> ''y''],
      trace = [MkDir ''.vcs/commit_1'', Write ''.vcs/commit_1/b'' ''x'', Write ''b'' ''x'',
               Write ''.vcs/commit_1/a'' ''y'', Write ''a'' ''y'',
               Print ''Commit done! Changes saved to .vcs and original files updated.''],
      commits = [\<lparr>getId = 1, message = ''first'', timestamp = ''t'',
                  files = [(''a'', 4), (''b'', 3)]\<rparr>],
      stagedFiles = [2], nextCommitId = 2, workingFiles = [0, 1, 2]\<rparr>"

text \<open>
  A state with one commit in the history, owning the cells 3 and 4, in which \<^verbatim>\<open>a\<close> has
  been edited since.
\<close>

definition ex_history :: state where
  "ex_history =
     \<lparr>heap = [\<lparr>name = ''b'', content = ''x'', stagedContent = ''x'', modified = False\<rparr>,
              \<lparr>name = ''a'', content = ''y'', stagedContent = ''bye'', modified = True\<rparr>,
              \<lparr>name = ''c'', content = ''z'', stagedContent = ''z'', modified = False\<rparr>,
              \<lparr>name = ''b'', content = ''x'', stagedContent = ''x'', modified = False\<rparr>,
              \<lparr>name = ''a'', content = ''y'', stagedContent = ''y'', modified = False\<rparr>],
      disk = [''b'' \<mapsto> ''x'', ''a'' \<mapsto> ''y'', ''c'' \<mapsto> ''z''], trace = [],
      commits = [\<lparr>getId = 1, message = ''first'', timestamp = ''t'',
                  files = [(''a'', 4), (''b'', 3)]\<rparr>],
      stagedFiles = [2, 1], nextCommitId = 2, workingFiles = [0, 1, 2]\<rparr>"

section \<open>Properties\<close>

subsection \<open>The ordered map\<close>

lemma map_of_map_assign: "map_of (map_assign k v m) = (map_of m)(k \<mapsto> v)"
  by (induction m) (auto simp: fun_upd_twist)

lemma set_map_assign: "set (map_assign k v m) \<subseteq> insert (k, v) (set m)"
  by (induction m) auto

lemma fst_set_map_assign: "fst ` set (map_assign k v m) = insert k (fst ` set m)"
  by (induction m) auto

lemma sorted_keys_map_assign: "sorted_keys m \<Longrightarrow> sorted_keys (map_assign k v m)"
  unfolding sorted_keys_def
  by (induction m) (auto simp: fst_set_map_assign [simplified] image_iff)

lemma map_assign_append:
  "sorted_keys (m @ [(k, v)]) \<Longrightarrow> map_assign k v m = m @ [(k, v)]"
  unfolding sorted_keys_def
  by (induction m) (auto simp: sorted_wrt_append)

lemma assign_all_Nil [simp]: "assign_all [] m = m"
  by (simp add: assign_all_def)

lemma assign_all_Cons [simp]: "assign_all (p # kvs) m = assign_all kvs (map_assign (fst p) (snd p) m)"
  by (simp add: assign_all_def)

lemma sorted_keys_assign_all: "sorted_keys m \<Longrightarrow> sorted_keys (assign_all kvs m)"
  by (induction kvs arbitrary: m) (simp_all add: sorted_keys_map_assign)

lemma set_assign_all: "set (assign_all kvs m) \<subseteq> set kvs \<union> set m"
proof (induction kvs arbitrary: m)
  case Nil
  show ?case by simp
next
  case (Cons p kvs)
  have "set (assign_all kvs (map_assign (fst p) (snd p) m))
          \<subseteq> set kvs \<union> set (map_assign (fst p) (snd p) m)"
    by (rule Cons.IH)
  also have "\<dots> \<subseteq> set kvs \<union> insert p (set m)"
    using set_map_assign [of "fst p" "snd p" m] by auto
  finally show ?case by auto
qed

lemma map_of_assign_all: "map_of (assign_all kvs m) = map_of m ++ map_of (rev kvs)"
proof (induction kvs arbitrary: m)
  case Nil
  show ?case by simp
next
  case (Cons p kvs)
  show ?case
    by (cases p) (simp add: Cons.IH map_of_map_assign map_add_def fun_eq_iff split: option.splits)
qed

lemma assign_all_sorted: "sorted_keys (m @ kvs) \<Longrightarrow> assign_all kvs m = m @ kvs"
proof (induction kvs arbitrary: m)
  case Nil
  show ?case by simp
next
  case (Cons p kvs)
  from Cons.prems have 1: "sorted_keys (m @ [(fst p, snd p)])"
    by (simp add: sorted_keys_def sorted_wrt_append)
  from Cons.prems have 2: "sorted_keys ((m @ [p]) @ kvs)"
    by simp
  show ?case
    using Cons.IH [OF 2] by (simp add: map_assign_append [OF 1])
qed

subsection \<open>The cloning loops\<close>

lemma enumerate_snd_mem: "(a, x) \<in> set (enumerate n xs) \<Longrightarrow> x \<in> set xs"
  by (auto simp: in_set_enumerate_eq)

lemma Commit_files_eq:
  "\<forall>f \<in> set staged. f < length (heap s) \<Longrightarrow>
   Commit_files staged m s =
     (assign_all (map (\<lambda>(a, f). (name (heap s ! f), a)) (enumerate (length (heap s)) staged)) m,
      s\<lparr>heap := heap s @ map (\<lambda>f. heap s ! f) staged\<rparr>)"
proof (induction staged arbitrary: m s)
  case Nil
  show ?case by simp
next
  case (Cons f staged)
  let ?s = "s\<lparr>heap := heap s @ [heap s ! f]\<rparr>"
  have v: "\<forall>g \<in> set staged. g < length (heap ?s)"
    using Cons.prems by auto
  have n: "map (\<lambda>(a, g). (name ((heap s @ [heap s ! f]) ! g), a)) (enumerate k staged)
             = map (\<lambda>(a, g). (name (heap s ! g), a)) (enumerate k staged)" for k
    using Cons.prems by (auto simp: nth_append dest: enumerate_snd_mem)
  have h: "map (\<lambda>g. (heap s @ [heap s ! f]) ! g) staged = map (\<lambda>g. heap s ! g) staged"
    using Cons.prems by (simp add: nth_append)
  have "Commit_files (f # staged) m s
          = Commit_files staged (map_assign (name (heap s ! f)) (length (heap s)) m) ?s"
    by (simp add: new_def clone_def)
  also note Cons.IH [OF v]
  finally show ?case
    by (simp add: n h)
qed

lemma getSnapshot_loop_eq:
  "\<forall>p \<in> set ps. snd p < length (heap s) \<Longrightarrow>
   getSnapshot_loop ps m s =
     (assign_all (map (\<lambda>(a, p). (fst p, a)) (enumerate (length (heap s)) ps)) m,
      s\<lparr>heap := heap s @ map (\<lambda>p. heap s ! snd p) ps\<rparr>)"
proof (induction ps arbitrary: m s)
  case Nil
  show ?case by simp
next
  case (Cons p ps)
  let ?s = "s\<lparr>heap := heap s @ [heap s ! snd p]\<rparr>"
  have v: "\<forall>q \<in> set ps. snd q < length (heap ?s)"
    using Cons.prems by auto
  have h: "map (\<lambda>q. (heap s @ [heap s ! snd p]) ! snd q) ps = map (\<lambda>q. heap s ! snd q) ps"
    using Cons.prems by (simp add: nth_append)
  have "getSnapshot_loop (p # ps) m s
          = getSnapshot_loop ps (map_assign (fst p) (length (heap s)) m) ?s"
    by (simp add: new_def clone_def)
  also note Cons.IH [OF v]
  finally show ?case
    by (simp add: h)
qed

subsection \<open>The loops of commit\<close>

lemma clearModified_idem [simp]: "clearModified (clearModified x) = clearModified x"
  by (simp add: clearModified_def)

lemma clearModified_fields [simp]:
  "name (clearModified x) = name x" "stagedContent (clearModified x) = stagedContent x"
  "content (clearModified x) = stagedContent x" "modified (clearModified x) = False"
  by (simp_all add: clearModified_def)

lemma nth_clear_name [simp]: "name (h[f := clearModified (h ! f)] ! g) = name (h ! g)"
  by (cases "f < length h") (simp_all add: nth_list_update list_update_beyond)

lemma nth_clear_staged [simp]:
  "stagedContent (h[f := clearModified (h ! f)] ! g) = stagedContent (h ! g)"
  by (cases "f < length h") (simp_all add: nth_list_update list_update_beyond)

lemma nth_clear_clear [simp]:
  "clearModified (h[f := clearModified (h ! f)] ! g) = clearModified (h ! g)"
  by (cases "f < length h") (simp_all add: nth_list_update list_update_beyond)

lemma commit_loop_frame:
  "commits (commit_loop p fs s) = commits s \<and>
   stagedFiles (commit_loop p fs s) = stagedFiles s \<and>
   nextCommitId (commit_loop p fs s) = nextCommitId s \<and>
   workingFiles (commit_loop p fs s) = workingFiles s \<and>
   length (heap (commit_loop p fs s)) = length (heap s)"
  by (induction fs arbitrary: s) (simp_all add: Let_def ofstream_def saveToDisk_def)

lemma commit_loop_heap:
  "a < length (heap s) \<Longrightarrow>
   heap (commit_loop p fs s) ! a = (if a \<in> set fs then clearModified (heap s ! a) else heap s ! a)"
proof (induction fs arbitrary: s)
  case Nil
  show ?case by simp
next
  case (Cons f fs)
  let ?s = "s\<lparr>heap := (heap s)[f := clearModified (heap s ! f)],
               disk := (disk s)(p @ ''/'' @ name (heap s ! f) \<mapsto> stagedContent (heap s ! f),
                                name ((heap s)[f := clearModified (heap s ! f)] ! f) \<mapsto> content ((heap s)[f := clearModified (heap s ! f)] ! f)),
               trace := trace s @ [Write (p @ ''/'' @ name (heap s ! f)) (stagedContent (heap s ! f)),
                                   Write (name ((heap s)[f := clearModified (heap s ! f)] ! f)) (content ((heap s)[f := clearModified (heap s ! f)] ! f))]\<rparr>"
  have step: "commit_loop p (f # fs) s = commit_loop p fs ?s"
    by (simp add: Let_def ofstream_def saveToDisk_def)
  have "a < length (heap ?s)"
    using Cons.prems by simp
  from Cons.IH [OF this] show ?case
    unfolding step using Cons.prems by (auto simp: nth_list_update)
qed


lemma commit_loop_trace:
  "\<forall>f \<in> set fs. f < length (heap s) \<Longrightarrow>
   trace (commit_loop p fs s) = trace s @ commit_events p (heap s) fs"
proof (induction fs arbitrary: s)
  case Nil
  show ?case by (simp add: commit_events_def)
next
  case (Cons f fs)
  let ?h = "(heap s)[f := clearModified (heap s ! f)]"
  let ?s = "s\<lparr>heap := ?h,
               disk := (disk s)(p @ ''/'' @ name (heap s ! f) \<mapsto> stagedContent (heap s ! f),
                                name (?h ! f) \<mapsto> content (?h ! f)),
               trace := trace s @ [Write (p @ ''/'' @ name (heap s ! f)) (stagedContent (heap s ! f)),
                                   Write (name (?h ! f)) (content (?h ! f))]\<rparr>"
  have step: "commit_loop p (f # fs) s = commit_loop p fs ?s"
    by (simp add: Let_def ofstream_def saveToDisk_def)
  have v: "\<forall>g \<in> set fs. g < length (heap ?s)"
    using Cons.prems by simp
  have c: "content (?h ! f) = stagedContent (heap s ! f)"
    using Cons.prems by simp
  have e: "commit_events p ?h fs = commit_events p (heap s) fs"
    by (simp add: commit_events_def)
  show ?case
    unfolding step Cons.IH [OF v]
    using c e by (simp add: commit_events_def)
qed

lemma fold_removeAll: "fold removeAll ys xs = filter (\<lambda>x. x \<notin> set ys) xs"
proof (induction ys arbitrary: xs)
  case Nil
  show ?case by simp
next
  case (Cons y ys)
  have "fold removeAll (y # ys) xs = fold removeAll ys (removeAll y xs)"
    by simp
  also have "\<dots> = filter (\<lambda>x. x \<notin> set ys) (removeAll y xs)"
    by (rule Cons.IH)
  also have "\<dots> = filter (\<lambda>x. x \<notin> set (y # ys)) xs"
    by (induction xs) auto
  finally show ?case .
qed

lemma length_cleared [simp]: "length (cleared fs h) = length h"
  by (simp add: cleared_def)

lemma nth_cleared:
  "a < length h \<Longrightarrow> cleared fs h ! a = (if a \<in> set fs then clearModified (h ! a) else h ! a)"
  by (simp add: cleared_def)

lemma commit_loop_cleared: "heap (commit_loop p fs s) = cleared fs (heap s)"
  by (rule nth_equalityI) (simp_all add: commit_loop_frame commit_loop_heap nth_cleared)

lemma commit_Inr:
  assumes v: "\<forall>f \<in> set (stagedFiles s). f < length (heap s)"
    and c: "commit msg now s = Inr s'"
    and e: "editableFiles s \<noteq> []"
  shows "heap s' = cleared (editableFiles s) (heap s)
                     @ map (\<lambda>f. cleared (editableFiles s) (heap s) ! f) (editableFiles s)"
    and "\<exists>ts. commits s' = commits s @
           [\<lparr>getId = nextCommitId s, message = msg, timestamp = ts,
             files = assign_all (map (\<lambda>(a, f). (name (heap s ! f), a))
                                   (enumerate (length (heap s)) (editableFiles s))) []\<rparr>]"
    and "nextCommitId s' = nextCommitId s + 1"
    and "stagedFiles s' = filter (\<lambda>f. f \<notin> set (editableFiles s)) (stagedFiles s)"
    and "workingFiles s' = workingFiles s"
    and "trace s' = trace s @ MkDir (''.vcs/commit_'' @ to_string (nextCommitId s))
                      # commit_events (''.vcs/commit_'' @ to_string (nextCommitId s)) (heap s) (editableFiles s)
                      @ [Print ''Commit done! Changes saved to .vcs and original files updated.'']"
    and "nextCommitId s \<noteq> INT_MAX"
proof -
  let ?ed = "editableFiles s"
  define p where "p = ''.vcs/commit_'' @ to_string (nextCommitId s)"
  let ?s1 = "create_directory p s"
  let ?s2 = "commit_loop p ?ed ?s1"
  have ved: "\<forall>f \<in> set ?ed. f < length (heap s)"
    using v by (auto simp: editableFiles_def)
  have fr: "commits ?s2 = commits s" "stagedFiles ?s2 = stagedFiles s"
    "nextCommitId ?s2 = nextCommitId s" "workingFiles ?s2 = workingFiles s"
    "length (heap ?s2) = length (heap s)"
    by (simp_all add: commit_loop_frame create_directory_def)
  have h2: "heap ?s2 = cleared ?ed (heap s)"
    by (simp add: commit_loop_cleared create_directory_def)
  have tr: "trace ?s2 = trace s @ MkDir p # commit_events p (heap s) ?ed"
    using ved commit_loop_trace [of ?ed ?s1 p] by (simp add: create_directory_def)
  show nm: "nextCommitId s \<noteq> INT_MAX"
  proof
    assume "nextCommitId s = INT_MAX"
    then have "commit msg now s = Inl SignedOverflow"
      using e by (simp add: commit_def Let_def commit_loop_frame create_directory_def)
    with c show False by simp
  qed
  have ved2: "\<forall>f \<in> set ?ed. f < length (heap ?s2)"
    using ved by (simp add: fr)
  have nms: "map (\<lambda>(a, f). (name (cleared ?ed (heap s) ! f), a)) (enumerate k ?ed)
               = map (\<lambda>(a, f). (name (heap s ! f), a)) (enumerate k ?ed)" for k
    using ved by (auto simp: nth_cleared dest: enumerate_snd_mem)
  have cf: "Commit_files ?ed [] ?s2 =
              (assign_all (map (\<lambda>(a, f). (name (heap s ! f), a)) (enumerate (length (heap s)) ?ed)) [],
               ?s2\<lparr>heap := cleared ?ed (heap s) @ map (\<lambda>f. cleared ?ed (heap s) ! f) ?ed\<rparr>)"
    using Commit_files_eq [OF ved2, of "[]"] by (simp add: h2 nms)
  have s': "s' = cout ''Commit done! Changes saved to .vcs and original files updated.''
                   (?s2\<lparr>heap := cleared ?ed (heap s) @ map (\<lambda>f. cleared ?ed (heap s) ! f) ?ed,
                         nextCommitId := nextCommitId s + 1,
                         commits := commits s @
                           [\<lparr>getId = nextCommitId s, message = msg,
                             timestamp = (if now \<noteq> [] \<and> last now = CHR 0x0A then butlast now else now),
                             files = assign_all (map (\<lambda>(a, f). (name (heap s ! f), a))
                                       (enumerate (length (heap s)) ?ed)) []\<rparr>],
                         stagedFiles := fold removeAll ?ed (stagedFiles s)\<rparr>)"
    using c e nm unfolding commit_def Let_def Commit_def p_def [symmetric] cf
    by (simp add: fr)
  show "heap s' = cleared ?ed (heap s) @ map (\<lambda>f. cleared ?ed (heap s) ! f) ?ed"
    by (simp add: s' cout_def)
  show "\<exists>ts. commits s' = commits s @
           [\<lparr>getId = nextCommitId s, message = msg, timestamp = ts,
             files = assign_all (map (\<lambda>(a, f). (name (heap s ! f), a))
                                   (enumerate (length (heap s)) ?ed)) []\<rparr>]"
    by (simp add: s' cout_def)
  show "nextCommitId s' = nextCommitId s + 1"
    by (simp add: s' cout_def)
  show "stagedFiles s' = filter (\<lambda>f. f \<notin> set ?ed) (stagedFiles s)"
    by (simp add: s' cout_def fold_removeAll)
  show "workingFiles s' = workingFiles s"
    by (simp add: s' cout_def fr)
  show "trace s' = trace s @ MkDir (''.vcs/commit_'' @ to_string (nextCommitId s))
                      # commit_events (''.vcs/commit_'' @ to_string (nextCommitId s)) (heap s) ?ed
                      @ [Print ''Commit done! Changes saved to .vcs and original files updated.'']"
    unfolding p_def [symmetric] by (simp add: s' cout_def tr)
qed


subsection \<open>Commit with nothing edited\<close>

text \<open>
  C4. In a state where no staged file is modified, \<^verbatim>\<open>commit\<close> returns normally and
  the state it leaves differs from the one it found only by the line
  ``No edited files to commit! Edit files first.'' on the console: the history, the
  counter, the staging vector, the heap, the working vector and the disk are the same.
\<close>

theorem commit_nothing_to_commit:
  assumes "\<forall>f \<in> set (stagedFiles s). \<not> modified (heap s ! f)"
  shows "commit msg now s =
           Inr (s\<lparr>trace := trace s @ [Print ''No edited files to commit! Edit files first.'']\<rparr>)"
proof -
  have "editableFiles s = []"
    using assms by (simp add: editableFiles_def filter_empty_conv)
  then show ?thesis
    by (simp add: commit_def cout_def)
qed

theorem commit_nothing_to_commit_witness:
  "(\<not> modified (heap ex_clean ! 0)) \<and> stagedFiles ex_clean = [0] \<and>
   commit ''empty'' ''t'' ex_clean =
     Inr (ex_clean\<lparr>trace := trace ex_clean @ [Print ''No edited files to commit! Edit files first.'']\<rparr>)"
  using commit_nothing_to_commit [of ex_clean "''empty''" "''t''"]
  by (simp add: ex_clean_def)

subsection \<open>Checkout of an unknown id\<close>

text \<open>
  C8. When no commit of the history has the id, \<^verbatim>\<open>checkout\<close> returns normally and
  the state it leaves differs from the one it found only by the line
  ``Commit ID not found!'' on the console: the working vector, the history, the staging
  vector, the heap, the counter and the disk are the same, so every later operation
  behaves as it would have without the call.
\<close>

theorem checkout_not_found:
  assumes "commitId \<notin> getId ` set (commits s)"
  shows "checkout commitId s = s\<lparr>trace := trace s @ [Print ''Commit ID not found!'']\<rparr>"
proof -
  have "find (\<lambda>c. getId c = commitId) (commits s) = None"
    using assms by (auto simp: find_None_iff)
  then show ?thesis
    by (simp add: checkout_def cout_def)
qed

theorem checkout_not_found_witness:
  "7 \<notin> getId ` set (commits ex_history) \<and>
   checkout 7 ex_history = ex_history\<lparr>trace := trace ex_history @ [Print ''Commit ID not found!'']\<rparr>"
  using checkout_not_found [of 7 ex_history]
  by (simp add: ex_history_def)

subsection \<open>A successful commit\<close>

text \<open>
  The example: committing \<open>ex_staged\<close> is evaluated by unfolding the definitions.
\<close>

lemmas commit_eval = editableFiles_def commit_def Let_def to_string_def digits.simps
  create_directory_def ofstream_def saveToDisk_def clearModified_def INT_MAX_def Commit_def
  new_def clone_def cout_def

lemma ex_commit: "commit ''first'' ''t'' ex_staged = Inr ex_committed"
  by (simp add: ex_staged_def ex_committed_def commit_eval)

text \<open>
  C7. Let every staged pointer be allocated and let \<^verbatim>\<open>commit\<close> return normally. Every
  file the commit selected (staged and modified before the call) is not modified
  afterwards, and its content afterwards is the staged content it had before the call;
  its staged content and its name are as before.
\<close>

theorem commit_clears_dirty:
  assumes "\<forall>f \<in> set (stagedFiles s). f < length (heap s)"
    and "commit msg now s = Inr s'"
    and "f \<in> set (editableFiles s)"
  shows "\<not> modified (heap s' ! f) \<and>
         content (heap s' ! f) = stagedContent (heap s ! f) \<and>
         stagedContent (heap s' ! f) = stagedContent (heap s ! f) \<and>
         name (heap s' ! f) = name (heap s ! f)"
proof -
  from assms(3) have e: "editableFiles s \<noteq> []"
    by auto
  from assms(1,3) have f: "f < length (heap s)"
    by (simp add: editableFiles_def)
  have "heap s' ! f = cleared (editableFiles s) (heap s) ! f"
    using f by (simp add: commit_Inr(1) [OF assms(1,2) e] nth_append)
  also have "\<dots> = clearModified (heap s ! f)"
    using f assms(3) by (simp add: nth_cleared)
  finally show ?thesis
    by simp
qed

text \<open>
  The hypotheses hold at \<open>ex_staged\<close>, for the file \<^verbatim>\<open>a\<close> at address 1.
\<close>

theorem commit_clears_dirty_witness:
  "stagedFiles ex_staged = [0, 1, 2] \<and> length (heap ex_staged) = 3 \<and>
   commit ''first'' ''t'' ex_staged = Inr ex_committed \<and>
   editableFiles ex_staged = [0, 1] \<and>
   modified (heap ex_staged ! 1) \<and> stagedContent (heap ex_staged ! 1) = ''y'' \<and>
   \<not> modified (heap ex_committed ! 1) \<and> content (heap ex_committed ! 1) = ''y''"
  using commit_clears_dirty [of ex_staged "''first''" "''t''" ex_committed 1] ex_commit
  by (simp add: ex_staged_def editableFiles_def)

text \<open>
  C9. Let every staged pointer be allocated and let \<^verbatim>\<open>commit\<close> return normally with
  at least one modified staged file. Afterwards the staging vector is the old one without
  the modified files, in the old order: no committed file is still staged, every staged
  file that was not modified is still staged, and its heap cell is what it was.
\<close>

theorem commit_unstages_exactly_dirty:
  assumes "\<forall>f \<in> set (stagedFiles s). f < length (heap s)"
    and "commit msg now s = Inr s'"
    and "editableFiles s \<noteq> []"
  shows "stagedFiles s' = filter (\<lambda>f. \<not> modified (heap s ! f)) (stagedFiles s) \<and>
         set (stagedFiles s') \<inter> set (editableFiles s) = {} \<and>
         set (stagedFiles s') \<union> set (editableFiles s) = set (stagedFiles s) \<and>
         (\<forall>f \<in> set (stagedFiles s'). heap s' ! f = heap s ! f)"
proof -
  have st: "stagedFiles s' = filter (\<lambda>f. \<not> modified (heap s ! f)) (stagedFiles s)"
    unfolding commit_Inr(4) [OF assms]
    by (rule filter_cong) (auto simp: editableFiles_def)
  have "heap s' ! f = heap s ! f" if "f \<in> set (stagedFiles s')" for f
  proof -
    from that have "f < length (heap s)" "f \<notin> set (editableFiles s)"
      using assms(1) by (auto simp: st editableFiles_def)
    then show ?thesis
      by (simp add: commit_Inr(1) [OF assms] nth_append nth_cleared)
  qed
  then show ?thesis
    by (auto simp: st editableFiles_def)
qed

text \<open>
  The hypotheses hold at \<open>ex_staged\<close>: the clean file \<^verbatim>\<open>c\<close> at address 2 stays staged.
\<close>

theorem commit_unstages_exactly_dirty_witness:
  "stagedFiles ex_staged = [0, 1, 2] \<and> length (heap ex_staged) = 3 \<and>
   commit ''first'' ''t'' ex_staged = Inr ex_committed \<and>
   editableFiles ex_staged = [0, 1] \<and>
   stagedFiles ex_committed = [2] \<and> heap ex_committed ! 2 = heap ex_staged ! 2"
  using commit_unstages_exactly_dirty [of ex_staged "''first''" "''t''" ex_committed] ex_commit
  by (simp add: ex_staged_def editableFiles_def)

subsection \<open>The order in which a commit processes its files\<close>

text \<open>
  C6, as the specification states it, fails: the files are not processed in the order of
  their names. At \<open>ex_staged\<close> the file \<^verbatim>\<open>b\<close> was staged before \<^verbatim>\<open>a\<close>, and the
  commit writes \<^verbatim>\<open>b\<close> first; the trace is not the one that processing in name order
  (\<^verbatim>\<open>a\<close>, then \<^verbatim>\<open>b\<close>) leaves.
\<close>

theorem commit_order_by_name_counterexample:
  "\<not> (\<forall>s'. commit ''first'' ''t'' ex_staged = Inr s' \<longrightarrow>
          trace s' =
            trace ex_staged @
            MkDir (''.vcs/commit_'' @ to_string (nextCommitId ex_staged)) #
            commit_events (''.vcs/commit_'' @ to_string (nextCommitId ex_staged)) (heap ex_staged)
              (sort_key (\<lambda>f. name (heap ex_staged ! f)) (editableFiles ex_staged)) @
            [Print ''Commit done! Changes saved to .vcs and original files updated.''])"
proof
  assume "\<forall>s'. commit ''first'' ''t'' ex_staged = Inr s' \<longrightarrow>
          trace s' =
            trace ex_staged @
            MkDir (''.vcs/commit_'' @ to_string (nextCommitId ex_staged)) #
            commit_events (''.vcs/commit_'' @ to_string (nextCommitId ex_staged)) (heap ex_staged)
              (sort_key (\<lambda>f. name (heap ex_staged ! f)) (editableFiles ex_staged)) @
            [Print ''Commit done! Changes saved to .vcs and original files updated.'']"
  with ex_commit have "trace ex_committed =
            trace ex_staged @
            MkDir (''.vcs/commit_'' @ to_string (nextCommitId ex_staged)) #
            commit_events (''.vcs/commit_'' @ to_string (nextCommitId ex_staged)) (heap ex_staged)
              (sort_key (\<lambda>f. name (heap ex_staged ! f)) (editableFiles ex_staged)) @
            [Print ''Commit done! Changes saved to .vcs and original files updated.'']"
    by blast
  then show False
    by (simp add: ex_staged_def ex_committed_def editableFiles_def commit_events_def)
qed

text \<open>
  C6, amended. Let every staged pointer be allocated and let \<^verbatim>\<open>commit\<close> return
  normally with at least one modified staged file. The commit creates its archive
  directory and then processes the modified files in staging order, the order in which
  they stand in the staging vector: for each file the archive write of its staged
  content, then the write of the same content to the file's own path. The order is a
  function of the staging vector alone.
\<close>

theorem commit_processes_in_staging_order:
  assumes "\<forall>f \<in> set (stagedFiles s). f < length (heap s)"
    and "commit msg now s = Inr s'"
    and "editableFiles s \<noteq> []"
  shows "trace s' =
           trace s @
           MkDir (''.vcs/commit_'' @ to_string (nextCommitId s)) #
           commit_events (''.vcs/commit_'' @ to_string (nextCommitId s)) (heap s)
             (filter (\<lambda>f. modified (heap s ! f)) (stagedFiles s)) @
           [Print ''Commit done! Changes saved to .vcs and original files updated.'']"
  using commit_Inr(6) [OF assms] by (simp add: editableFiles_def)

text \<open>
  The hypotheses hold at \<open>ex_staged\<close>: \<^verbatim>\<open>b\<close> is written before \<^verbatim>\<open>a\<close>.
\<close>

theorem commit_processes_in_staging_order_witness:
  "stagedFiles ex_staged = [0, 1, 2] \<and> length (heap ex_staged) = 3 \<and>
   commit ''first'' ''t'' ex_staged = Inr ex_committed \<and>
   editableFiles ex_staged = [0, 1] \<and>
   trace ex_committed =
     [MkDir ''.vcs/commit_1'', Write ''.vcs/commit_1/b'' ''x'', Write ''b'' ''x'',
      Write ''.vcs/commit_1/a'' ''y'', Write ''a'' ''y'',
      Print ''Commit done! Changes saved to .vcs and original files updated.'']"
  using commit_processes_in_staging_order [of ex_staged "''first''" "''t''" ex_committed] ex_commit
  by (simp add: ex_staged_def editableFiles_def commit_events_def to_string_def digits.simps)

section \<open>The invariant is kept\<close>

subsection \<open>The invariant, piece by piece\<close>

lemma wfI:
  assumes "\<And>f. f \<in> set (stagedFiles s) \<Longrightarrow> f < length (heap s)"
    and "\<And>f. f \<in> set (workingFiles s) \<Longrightarrow> f < length (heap s)"
    and "distinct (stagedFiles s)"
    and "map getId (commits s) = [1..int (length (commits s))]"
    and "nextCommitId s = int (length (commits s)) + 1"
    and "\<And>c. c \<in> set (commits s) \<Longrightarrow> sorted_keys (files c)"
    and "\<And>c p. c \<in> set (commits s) \<Longrightarrow> p \<in> set (files c) \<Longrightarrow> snapshot_ok (heap s) p"
    and "\<And>a. a \<in> owned s \<Longrightarrow> a \<notin> set (stagedFiles s) \<and> a \<notin> set (workingFiles s)"
  shows "wellformed s"
  unfolding wellformed_def using assms by blast

lemma wf_staged: "wellformed s \<Longrightarrow> f \<in> set (stagedFiles s) \<Longrightarrow> f < length (heap s)"
  by (simp add: wellformed_def)

lemma wf_working: "wellformed s \<Longrightarrow> f \<in> set (workingFiles s) \<Longrightarrow> f < length (heap s)"
  by (simp add: wellformed_def)

lemma wf_distinct: "wellformed s \<Longrightarrow> distinct (stagedFiles s)"
  by (simp add: wellformed_def)

lemma wf_ids: "wellformed s \<Longrightarrow> map getId (commits s) = [1..int (length (commits s))]"
  by (simp add: wellformed_def)

lemma wf_next: "wellformed s \<Longrightarrow> nextCommitId s = int (length (commits s)) + 1"
  by (simp add: wellformed_def)

lemma wf_sorted: "wellformed s \<Longrightarrow> c \<in> set (commits s) \<Longrightarrow> sorted_keys (files c)"
  by (simp add: wellformed_def)

lemma wf_snapshot:
  "wellformed s \<Longrightarrow> c \<in> set (commits s) \<Longrightarrow> p \<in> set (files c) \<Longrightarrow> snapshot_ok (heap s) p"
  by (simp add: wellformed_def)

lemma wf_disjoint:
  "wellformed s \<Longrightarrow> a \<in> owned s \<Longrightarrow> a \<notin> set (stagedFiles s) \<and> a \<notin> set (workingFiles s)"
  unfolding wellformed_def by blast

lemma owned_iff: "a \<in> owned s \<longleftrightarrow> (\<exists>c \<in> set (commits s). \<exists>p \<in> set (files c). a = snd p)"
  by (auto simp: owned_def)

lemma ownedI: "c \<in> set (commits s) \<Longrightarrow> p \<in> set (files c) \<Longrightarrow> snd p \<in> owned s"
  by (auto simp: owned_iff)

lemma wf_owned_valid: "wellformed s \<Longrightarrow> a \<in> owned s \<Longrightarrow> a < length (heap s)"
  by (auto simp: owned_iff snapshot_ok_def dest!: wf_snapshot)

lemma snapshot_ok_cong:
  "snapshot_ok h p \<Longrightarrow> length h \<le> length h' \<Longrightarrow> h' ! snd p = h ! snd p \<Longrightarrow> snapshot_ok h' p"
  by (simp add: snapshot_ok_def)

subsection \<open>Frames\<close>

lemma core_simps [simp]:
  "core (cout l s) = core s"
  "core (ofstream p c s) = core s"
  "core (create_directory p s) = core s"
  "core (saveToDisk f s) = core s"
  "core (showContent f s) = core s"
  by (simp_all add: core_def cout_def ofstream_def create_directory_def saveToDisk_def showContent_def)

lemma core_fields:
  "core s' = core s \<Longrightarrow>
   heap s' = heap s \<and> commits s' = commits s \<and> stagedFiles s' = stagedFiles s \<and>
   nextCommitId s' = nextCommitId s \<and> workingFiles s' = workingFiles s"
  by (simp add: core_def)

lemma wf_core: "core s' = core s \<Longrightarrow> wellformed s' = wellformed s"
  by (simp add: core_def wellformed_def owned_def)

lemma owned_commits: "commits s' = commits s \<Longrightarrow> owned s' = owned s"
  by (simp add: owned_def)

lemma extends_core: "core s' = core s \<Longrightarrow> extends s s'"
  by (simp add: core_def extends_def owned_def)

lemma extends_refl: "extends s s"
  by (simp add: extends_core)

lemma extends_owned: "extends s s' \<Longrightarrow> owned s \<subseteq> owned s'"
  by (auto simp: extends_def owned_def)

lemma extends_trans:
  assumes "extends s s'" and "extends s' s''"
  shows "extends s s''"
proof -
  have o: "owned s \<subseteq> owned s'"
    using assms(1) by (rule extends_owned)
  show ?thesis
    unfolding extends_def
  proof (intro conjI ballI)
    show "length (heap s) \<le> length (heap s'')"
      using assms by (simp add: extends_def)
    show "\<exists>cs. commits s'' = commits s @ cs"
      using assms by (auto simp: extends_def)
  next
    fix a assume "a \<in> owned s"
    with o have "a \<in> owned s'" by blast
    with \<open>a \<in> owned s\<close> assms show "heap s'' ! a = heap s ! a"
      by (simp add: extends_def)
  next
    fix a assume a: "a \<in> owned s''"
    show "a \<in> owned s \<or> length (heap s) \<le> a"
    proof (cases "a \<in> owned s'")
      case True
      with assms(1) show ?thesis by (simp add: extends_def)
    next
      case False
      with a assms(2) have "length (heap s') \<le> a"
        by (auto simp: extends_def)
      moreover have "length (heap s) \<le> length (heap s')"
        using assms(1) by (simp add: extends_def)
      ultimately show ?thesis by simp
    qed
  qed
qed

lemma core_showDetails_loop:
  "core (fold (\<lambda>p. showContent (h ! snd p)) ps s) = core s"
  by (induction ps arbitrary: s) simp_all

lemma core_showDetails [simp]: "core (showDetails c s) = core s"
  by (simp add: showDetails_def core_showDetails_loop)

lemma core_log_loop:
  "core (fold (\<lambda>c s'. cout l (showDetails c s')) cs s) = core s"
  by (induction cs arbitrary: s) simp_all

lemma core_log [simp]: "core (log s) = core s"
  by (simp add: log_def core_log_loop)

subsection \<open>Allocation and update\<close>

lemma wf_alloc:
  assumes "wellformed s"
  shows "wellformed (s\<lparr>heap := heap s @ xs\<rparr>)"
proof (rule wfI)
  fix c p assume "c \<in> set (commits (s\<lparr>heap := heap s @ xs\<rparr>))" "p \<in> set (files c)"
  then have ok: "snapshot_ok (heap s) p"
    using assms by (simp add: wf_snapshot)
  then have "snd p < length (heap s)"
    by (simp add: snapshot_ok_def)
  with ok show "snapshot_ok (heap (s\<lparr>heap := heap s @ xs\<rparr>)) p"
    by (simp add: snapshot_ok_def nth_append)
next
  fix a assume "a \<in> owned (s\<lparr>heap := heap s @ xs\<rparr>)"
  then have "a \<in> owned s" by (simp add: owned_def)
  with assms show "a \<notin> set (stagedFiles (s\<lparr>heap := heap s @ xs\<rparr>)) \<and>
                   a \<notin> set (workingFiles (s\<lparr>heap := heap s @ xs\<rparr>))"
    by (simp add: wf_disjoint)
qed (use assms in \<open>auto simp: wf_ids wf_next wf_distinct wf_sorted dest: wf_staged wf_working\<close>)

lemma extends_alloc: "wellformed s \<Longrightarrow> extends s (s\<lparr>heap := heap s @ xs\<rparr>)"
  using wf_owned_valid [of s]
  by (auto simp: extends_def owned_def nth_append)

lemma wf_update:
  assumes "wellformed s" and "f \<notin> owned s"
  shows "wellformed (s\<lparr>heap := (heap s)[f := x]\<rparr>)"
proof (rule wfI)
  fix c p assume cp: "c \<in> set (commits (s\<lparr>heap := (heap s)[f := x]\<rparr>))" "p \<in> set (files c)"
  then have "snd p \<in> owned s"
    by (simp add: ownedI)
  with assms(2) have ne: "f \<noteq> snd p" by auto
  from cp have "snapshot_ok (heap s) p"
    using assms(1) by (simp add: wf_snapshot)
  then show "snapshot_ok (heap (s\<lparr>heap := (heap s)[f := x]\<rparr>)) p"
    by (rule snapshot_ok_cong) (simp_all add: ne)
next
  fix a assume "a \<in> owned (s\<lparr>heap := (heap s)[f := x]\<rparr>)"
  then have "a \<in> owned s" by (simp add: owned_def)
  with assms show "a \<notin> set (stagedFiles (s\<lparr>heap := (heap s)[f := x]\<rparr>)) \<and>
                   a \<notin> set (workingFiles (s\<lparr>heap := (heap s)[f := x]\<rparr>))"
    by (simp add: wf_disjoint)
qed (use assms in \<open>auto simp: wf_ids wf_next wf_distinct wf_sorted dest: wf_staged wf_working\<close>)

lemma extends_update:
  assumes "f \<notin> owned s"
  shows "extends s (s\<lparr>heap := (heap s)[f := x]\<rparr>)"
proof -
  have "(heap s)[f := x] ! a = heap s ! a" if "a \<in> owned s" for a
    using that assms by (cases "a = f") simp_all
  then show ?thesis
    by (simp add: extends_def owned_def)
qed

lemma addFile_frame:
  "heap (addFile f s) = heap s \<and> commits (addFile f s) = commits s \<and>
   workingFiles (addFile f s) = workingFiles s \<and> nextCommitId (addFile f s) = nextCommitId s \<and>
   set (stagedFiles (addFile f s)) = insert f (set (stagedFiles s))"
  by (auto simp: addFile_def cout_def)

lemma wf_addFile:
  assumes "wellformed s" and "f < length (heap s)" and "f \<notin> owned s"
  shows "wellformed (addFile f s)"
proof (rule wfI)
  show "distinct (stagedFiles (addFile f s))"
    using assms(1) by (simp add: addFile_def cout_def wf_distinct)
next
  fix a assume "a \<in> owned (addFile f s)"
  then have "a \<in> owned s" by (simp add: owned_def addFile_frame)
  with assms show "a \<notin> set (stagedFiles (addFile f s)) \<and> a \<notin> set (workingFiles (addFile f s))"
    using wf_disjoint [of s a] by (auto simp: addFile_frame)
qed (use assms in \<open>auto simp: addFile_frame wf_ids wf_next wf_sorted wf_snapshot dest: wf_staged wf_working\<close>)

lemma extends_addFile: "extends s (addFile f s)"
  by (simp add: extends_def owned_def addFile_frame)

subsection \<open>The commands of the controller\<close>

lemma new_ok:
  assumes "wellformed s" and "new x s = (f, s1)"
  shows "wellformed s1 \<and> extends s s1 \<and> f < length (heap s1) \<and> f \<notin> owned s1"
proof -
  from assms(2) have s1: "s1 = s\<lparr>heap := heap s @ [x]\<rparr>" and f: "f = length (heap s)"
    by (simp_all add: new_def)
  have "length (heap s) \<notin> owned s"
    using wf_owned_valid [OF assms(1), of "length (heap s)"] by auto
  then show ?thesis
    using assms(1) by (simp add: s1 f wf_alloc extends_alloc owned_def)
qed

lemma stays_free:
  assumes "extends s s'" and "f < length (heap s)" and "f \<notin> owned s"
  shows "f < length (heap s') \<and> f \<notin> owned s'"
proof
  from assms(1) have "length (heap s) \<le> length (heap s')"
    by (simp add: extends_def)
  with assms(2) show "f < length (heap s')"
    by simp
  from assms(1) have "\<forall>a \<in> owned s'. a \<in> owned s \<or> length (heap s) \<le> a"
    by (simp add: extends_def)
  with assms(2,3) show "f \<notin> owned s'"
    by auto
qed

lemma wf_track:
  assumes "wellformed s" and "f < length (heap s)" and "f \<notin> owned s"
  shows "wellformed (s\<lparr>workingFiles := workingFiles s @ [f]\<rparr>)"
proof (rule wfI)
  fix a assume "a \<in> owned (s\<lparr>workingFiles := workingFiles s @ [f]\<rparr>)"
  then have "a \<in> owned s" by (simp add: owned_def)
  with assms show "a \<notin> set (stagedFiles (s\<lparr>workingFiles := workingFiles s @ [f]\<rparr>)) \<and>
                   a \<notin> set (workingFiles (s\<lparr>workingFiles := workingFiles s @ [f]\<rparr>))"
    using wf_disjoint [of s a] by auto
qed (use assms in \<open>auto simp: wf_ids wf_next wf_distinct wf_sorted wf_snapshot dest: wf_staged wf_working\<close>)

lemma add_track_ok:
  assumes "wellformed s" and "f < length (heap s)" and "f \<notin> owned s"
  shows "wellformed (add_track f s) \<and> extends s (add_track f s)"
proof (cases "f \<in> set (workingFiles s)")
  case True
  then have "add_track f s = addFile f s"
    by (simp add: add_track_def)
  with assms show ?thesis
    by (simp add: wf_addFile extends_addFile)
next
  case False
  let ?t = "s\<lparr>workingFiles := workingFiles s @ [f]\<rparr>"
  from False have a: "add_track f s = addFile f ?t"
    by (simp add: add_track_def)
  have t: "wellformed ?t"
    using assms by (rule wf_track)
  have e: "extends s ?t"
    by (simp add: extends_def owned_def)
  have "f < length (heap ?t)" "f \<notin> owned ?t"
    using assms by (simp_all add: owned_def)
  with t have "wellformed (addFile f ?t)"
    by (rule wf_addFile)
  moreover have "extends s (addFile f ?t)"
    using e extends_addFile by (rule extends_trans)
  ultimately show ?thesis
    by (simp only: a)
qed

lemma editFile_eq:
  "\<exists>s1 l2 l3. editFile f c s =
      addFile f (cout l3 (cout l2 (s1\<lparr>heap := (heap s1)[f := updateContent c (heap s1 ! f)]\<rparr>))) \<and>
      core s1 = core s"
  unfolding editFile_def Let_def
  by (intro exI conjI) (rule refl, rule core_simps(1))

lemma core_ok: "core s' = core s \<Longrightarrow> wellformed s \<Longrightarrow> wellformed s' \<and> extends s s'"
  using wf_core [of s' s] extends_core [of s' s] by simp

lemma editFile_ok:
  assumes "wellformed s" and "f < length (heap s)" and "f \<notin> owned s"
  shows "wellformed (editFile f c s) \<and> extends s (editFile f c s)"
proof -
  obtain s1 l2 l3 where e: "editFile f c s =
      addFile f (cout l3 (cout l2 (s1\<lparr>heap := (heap s1)[f := updateContent c (heap s1 ! f)]\<rparr>)))"
    and c: "core s1 = core s"
    using editFile_eq by blast
  let ?u = "s1\<lparr>heap := (heap s1)[f := updateContent c (heap s1 ! f)]\<rparr>"
  let ?s4 = "cout l3 (cout l2 ?u)"
  have 1: "wellformed s1 \<and> extends s s1"
    using c assms(1) by (rule core_ok)
  with assms(2,3) have f1: "f < length (heap s1) \<and> f \<notin> owned s1"
    by (intro stays_free [of s]) simp_all
  have u: "wellformed ?u" "extends s1 ?u"
    using 1 f1 by (simp_all add: wf_update extends_update)
  have fu: "f < length (heap ?u) \<and> f \<notin> owned ?u"
    using u(2) f1 by (intro stays_free [of s1]) simp_all
  have c4: "core ?s4 = core ?u"
    by simp
  have 4: "wellformed ?s4 \<and> extends ?u ?s4"
    using c4 u(1) by (rule core_ok)
  with fu have f4: "f < length (heap ?s4) \<and> f \<notin> owned ?s4"
    by (intro stays_free [of ?u]) simp_all
  have "wellformed (addFile f ?s4)"
    using 4 f4 by (intro wf_addFile) simp_all
  moreover have "extends s (addFile f ?s4)"
  proof -
    from 1 u(2) have "extends s ?u" by (blast intro: extends_trans)
    with 4 have "extends s ?s4" by (blast intro: extends_trans)
    then show ?thesis using extends_addFile by (rule extends_trans)
  qed
  ultimately show ?thesis
    by (simp only: e)
qed

lemma Add_ok:
  assumes w: "wellformed s" and r: "runCommand (Add fname create editNow) s = Inr s'"
  shows "wellformed s' \<and> extends s s'"
proof (cases "disk s fname")
  case (Some bytes)
  obtain f s1 where n: "new (TextFile fname (getlines [] bytes)) s = (f, s1)"
    by (cases "new (TextFile fname (getlines [] bytes)) s")
  from r Some n have s': "s' = add_track f s1"
    by (simp add: loadFromDisk_def)
  from new_ok [OF w n] have 1: "wellformed s1" "extends s s1" "f < length (heap s1)" "f \<notin> owned s1"
    by simp_all
  then have "wellformed s' \<and> extends s1 s'"
    unfolding s' by (intro add_track_ok)
  with 1 show ?thesis
    by (blast intro: extends_trans)
next
  case None
  let ?s2 = "cout ''File does not exist on disk. Create new? (y/n): '' s"
  have 2: "wellformed ?s2 \<and> extends s ?s2"
    using w by (intro core_ok) simp_all
  show ?thesis
  proof (cases create)
    case False
    with r None have "s' = ?s2"
      by (simp add: loadFromDisk_def)
    with 2 show ?thesis
      by simp
  next
    case True
    obtain f s3 where n: "new (TextFile fname []) ?s2 = (f, s3)"
      by (cases "new (TextFile fname []) ?s2")
    let ?s6 = "cout ''Do you want to edit now? (y/n): '' (cout ''File created.'' (ofstream fname [] s3))"
    let ?s7 = "case editNow of Some c \<Rightarrow> editFile f c ?s6 | None \<Rightarrow> ?s6"
    from r None True n have s': "s' = add_track f ?s7"
      by (auto simp: loadFromDisk_def Let_def)
    from 2 n have 3: "wellformed s3 \<and> extends ?s2 s3 \<and> f < length (heap s3) \<and> f \<notin> owned s3"
      by (intro new_ok) simp_all
    have c6: "core ?s6 = core s3"
      by simp
    have 6: "wellformed ?s6 \<and> extends s3 ?s6"
      using c6 3 by (intro core_ok) simp_all
    with 3 have f6: "f < length (heap ?s6) \<and> f \<notin> owned ?s6"
      by (intro stays_free [of s3]) simp_all
    have 7: "wellformed ?s7 \<and> extends ?s6 ?s7"
    proof (cases editNow)
      case None
      with 6 show ?thesis by (simp add: extends_refl)
    next
      case (Some c)
      with editFile_ok [of ?s6 f c] 6 f6 show ?thesis by simp
    qed
    with f6 have f7: "f < length (heap ?s7) \<and> f \<notin> owned ?s7"
      by (intro stays_free [of ?s6]) simp_all
    have "wellformed s' \<and> extends ?s7 s'"
      unfolding s' using 7 f7 by (intro add_track_ok) simp_all
    moreover from 2 3 have "extends s s3" by (blast intro: extends_trans)
    with 6 have "extends s ?s6" by (blast intro: extends_trans)
    with 7 have "extends s ?s7" by (blast intro: extends_trans)
    ultimately show ?thesis
      by (blast intro: extends_trans)
  qed
qed

lemma Edit_ok:
  assumes w: "wellformed s" and r: "runCommand (Edit fname newContent) s = Inr s'"
  shows "wellformed s' \<and> extends s s'"
proof (cases "find (\<lambda>f. name (heap s ! f) = fname) (workingFiles s)")
  case None
  with r have "s' = cout ''File not found in working directory!'' s"
    by simp
  with w show ?thesis
    by (simp add: core_ok)
next
  case (Some f)
  then have "f \<in> set (workingFiles s)"
    by (auto simp: find_Some_iff)
  then have "f < length (heap s)" "f \<notin> owned s"
    using w wf_disjoint [of s f] by (auto dest: wf_working)
  with w have "wellformed (editFile f newContent s) \<and> extends s (editFile f newContent s)"
    by (rule editFile_ok)
  with r Some show ?thesis
    by simp
qed

subsection \<open>commit\<close>

lemma commit_ok:
  assumes w: "wellformed s" and c: "commit msg now s = Inr s'"
  shows "wellformed s' \<and> extends s s' \<and>
         (commits s' = commits s \<or>
          (\<exists>C. commits s' = commits s @ [C] \<and> getId C = int (length (commits s)) + 1))"
proof (cases "editableFiles s = []")
  case True
  with c have "s' = cout ''No edited files to commit! Edit files first.'' s"
    by (simp add: commit_def)
  then have "core s' = core s" by simp
  with w show ?thesis
    using core_ok [of s' s] core_fields [of s' s] by simp
next
  case False
  let ?h = "heap s"
  let ?ed = "editableFiles s"
  let ?n = "length (heap s)"
  let ?L = "map (\<lambda>(a, f). (name (?h ! f), a)) (enumerate ?n ?ed)"
  have v: "\<forall>f \<in> set (stagedFiles s). f < length (heap s)"
    using w by (simp add: wf_staged)
  note facts = commit_Inr [OF v c False]
  have H: "heap s' = cleared ?ed ?h @ map (\<lambda>f. cleared ?ed ?h ! f) ?ed"
    by (rule facts(1))
  obtain ts where C: "commits s' = commits s @
      [\<lparr>getId = nextCommitId s, message = msg, timestamp = ts, files = assign_all ?L []\<rparr>]"
    using facts(2) by blast
  let ?C = "\<lparr>getId = nextCommitId s, message = msg, timestamp = ts, files = assign_all ?L []\<rparr>"
  have S: "stagedFiles s' = filter (\<lambda>f. f \<notin> set ?ed) (stagedFiles s)"
    by (rule facts(4))
  have W: "workingFiles s' = workingFiles s"
    by (rule facts(5))
  have N: "nextCommitId s' = nextCommitId s + 1"
    by (rule facts(3))
  have ed: "f \<in> set (stagedFiles s) \<and> f < ?n" if "f \<in> set ?ed" for f
    using that v by (simp add: editableFiles_def)
  have len: "length (heap s') = ?n + length ?ed"
    by (simp add: H)
  have old: "heap s' ! a = ?h ! a" if "a < ?n" "a \<notin> set ?ed" for a
    using that by (simp add: H nth_append nth_cleared)
  have own: "a < ?n \<and> a \<notin> set ?ed" if "a \<in> owned s" for a
    using that w ed wf_disjoint [of s a] wf_owned_valid [of s a] by blast
  have new: "\<exists>i < length ?ed. p = (name (?h ! (?ed ! i)), ?n + i)" if "p \<in> set (files ?C)" for p
  proof -
    from that set_assign_all [of ?L "[]"] have "p \<in> set ?L"
      by auto
    then obtain a f where af: "(a, f) \<in> set (enumerate ?n ?ed)" and p: "p = (name (?h ! f), a)"
      by auto
    from af have "?n \<le> a" "a < length ?ed + ?n" "?ed ! (a - ?n) = f"
      by (simp_all add: in_set_enumerate_eq)
    then have "a - ?n < length ?ed \<and> p = (name (?h ! (?ed ! (a - ?n))), ?n + (a - ?n))"
      using p by simp
    then show ?thesis by blast
  qed
  have cell: "heap s' ! (?n + i) = clearModified (?h ! (?ed ! i))" if "i < length ?ed" for i
  proof -
    from that have m: "?ed ! i \<in> set ?ed" by simp
    with ed have "?ed ! i < ?n" by blast
    with m that show ?thesis
      by (simp add: H nth_append nth_cleared)
  qed
  have ow: "owned s' = owned s \<union> snd ` set (files ?C)"
    by (auto simp: owned_def C)
  have wf': "wellformed s'"
  proof (rule wfI)
    fix f assume "f \<in> set (stagedFiles s')"
    then have "f < ?n" using v by (simp add: S)
    then show "f < length (heap s')" by (simp add: len)
  next
    fix f assume "f \<in> set (workingFiles s')"
    then have "f < ?n" using w by (simp add: W wf_working)
    then show "f < length (heap s')" by (simp add: len)
  next
    show "distinct (stagedFiles s')"
      using w by (simp add: S wf_distinct)
  next
    have "[1..int (length (commits s)) + 1] = [1..int (length (commits s))] @ [int (length (commits s)) + 1]"
      by (simp add: upto_rec2)
    then show "map getId (commits s') = [1..int (length (commits s'))]"
      using w by (simp add: C wf_ids wf_next add.commute)
  next
    show "nextCommitId s' = int (length (commits s')) + 1"
      using w by (simp add: N C wf_next)
  next
    fix c assume "c \<in> set (commits s')"
    then have "c \<in> set (commits s) \<or> c = ?C" by (auto simp: C)
    then show "sorted_keys (files c)"
    proof
      assume "c \<in> set (commits s)"
      with w show ?thesis by (rule wf_sorted)
    next
      assume "c = ?C"
      moreover have "sorted_keys (assign_all ?L [])"
        by (rule sorted_keys_assign_all) (simp add: sorted_keys_def)
      ultimately show ?thesis by simp
    qed
  next
    fix c p assume "c \<in> set (commits s')" and p: "p \<in> set (files c)"
    then have "c \<in> set (commits s) \<or> c = ?C" by (auto simp: C)
    then show "snapshot_ok (heap s') p"
    proof
      assume c: "c \<in> set (commits s)"
      with w p have ok: "snapshot_ok ?h p" by (simp add: wf_snapshot)
      from c p have "snd p \<in> owned s" by (rule ownedI)
      then have "heap s' ! snd p = ?h ! snd p"
        using own old by blast
      with ok show ?thesis
        by (simp add: snapshot_ok_def len)
    next
      assume "c = ?C"
      with p new obtain i where "i < length ?ed" "p = (name (?h ! (?ed ! i)), ?n + i)"
        by blast
      then show ?thesis
        by (simp add: snapshot_ok_def cell len)
    qed
  next
    fix a assume "a \<in> owned s'"
    then have "a \<in> owned s \<or> a \<in> snd ` set (files ?C)"
      by (simp add: ow)
    then show "a \<notin> set (stagedFiles s') \<and> a \<notin> set (workingFiles s')"
    proof
      assume "a \<in> owned s"
      with w show ?thesis
        using wf_disjoint [of s a] by (simp add: S W)
    next
      assume "a \<in> snd ` set (files ?C)"
      with new have "?n \<le> a" by force
      moreover have "f < ?n" if "f \<in> set (stagedFiles s') \<or> f \<in> set (workingFiles s')" for f
        using that v w by (auto simp: S W dest: wf_working)
      ultimately show ?thesis by force
    qed
  qed
  have ex: "extends s s'"
    unfolding extends_def
  proof (intro conjI ballI)
    show "length (heap s) \<le> length (heap s')" by (simp add: len)
    show "\<exists>cs. commits s' = commits s @ cs" by (simp add: C)
  next
    fix a assume "a \<in> owned s"
    then show "heap s' ! a = heap s ! a" using own old by blast
  next
    fix a assume "a \<in> owned s'"
    then have "a \<in> owned s \<or> a \<in> snd ` set (files ?C)"
      by (simp add: ow)
    then show "a \<in> owned s \<or> length (heap s) \<le> a"
      using new by force
  qed
  have "getId ?C = int (length (commits s)) + 1"
    using w by (simp add: wf_next)
  with C wf' ex show ?thesis
    by blast
qed

subsection \<open>checkout\<close>

lemma checkout_loop_core:
  "heap (checkout_loop ps s) = heap s \<and> commits (checkout_loop ps s) = commits s \<and>
   stagedFiles (checkout_loop ps s) = stagedFiles s \<and>
   nextCommitId (checkout_loop ps s) = nextCommitId s \<and>
   workingFiles (checkout_loop ps s) = workingFiles s @ map snd ps"
  by (induction ps arbitrary: s) (simp_all add: Let_def ofstream_def)

lemma find_by_key:
  "distinct (map f xs) \<Longrightarrow> x \<in> set xs \<Longrightarrow> find (\<lambda>y. f y = f x) xs = Some x"
  by (induction xs) (auto simp: image_iff)

lemma find_commit:
  assumes "wellformed s" and "c \<in> set (commits s)"
  shows "find (\<lambda>c'. getId c' = getId c) (commits s) = Some c"
proof -
  have "distinct (map getId (commits s))"
    using assms(1) by (simp add: wf_ids)
  then show ?thesis
    using assms(2) by (rule find_by_key)
qed

lemma snapshot_keys:
  "map (fst \<circ> (\<lambda>(a, p). (fst p, a))) (enumerate n ps) = map fst ps"
  by (induction ps arbitrary: n) simp_all

lemma snapshot_addrs:
  "map (snd \<circ> (\<lambda>(a, p). (fst p, a))) (enumerate n ps) = [n..<n + length ps]"
proof -
  have "map (snd \<circ> (\<lambda>(a, p). (fst p, a))) (enumerate n ps) = map fst (enumerate n ps)"
    by (induction ps arbitrary: n) simp_all
  then show ?thesis by simp
qed

lemma commits_addFile [simp]: "commits (addFile f s) = commits s"
  by (simp add: addFile_def cout_def)

lemma commits_editFile [simp]: "commits (editFile f c s) = commits s"
  by (simp add: editFile_def Let_def cout_def)

lemma commits_add_track [simp]: "commits (add_track f s) = commits s"
  by (simp add: add_track_def)

lemma commits_simps [simp]:
  "commits (cout l s) = commits s" "commits (ofstream p c s) = commits s"
  "commits (snd (new x s)) = commits s"
  by (simp_all add: cout_def ofstream_def new_def)

lemma commits_Add: "runCommand (Add fname create editNow) s = Inr s' \<Longrightarrow> commits s' = commits s"
  by (cases "disk s fname"; cases create; cases editNow)
    (auto simp: loadFromDisk_def new_def Let_def)

lemma commits_Edit: "runCommand (Edit fname newContent) s = Inr s' \<Longrightarrow> commits s' = commits s"
  by (auto split: option.splits)

lemma getSnapshot_eq:
  assumes "wellformed s" and "c \<in> set (commits s)"
  shows "getSnapshot c s =
           (map (\<lambda>(a, p). (fst p, a)) (enumerate (length (heap s)) (files c)),
            s\<lparr>heap := heap s @ map (\<lambda>p. heap s ! snd p) (files c)\<rparr>)"
proof -
  let ?L = "map (\<lambda>(a, p). (fst p, a)) (enumerate (length (heap s)) (files c))"
  have v: "\<forall>p \<in> set (files c). snd p < length (heap s)"
    using wf_snapshot [OF assms] by (simp add: snapshot_ok_def)
  have "sorted_keys ([] @ ?L)"
    using wf_sorted [OF assms] by (simp add: sorted_keys_def snapshot_keys)
  then have "assign_all ?L [] = ?L"
    using assign_all_sorted [of "[]" ?L] by simp
  then show ?thesis
    by (simp add: getSnapshot_def getSnapshot_loop_eq [OF v])
qed

lemma checkout_found:
  assumes "wellformed s" and "c \<in> set (commits s)"
  shows "heap (checkout (getId c) s) = heap s @ map (\<lambda>p. heap s ! snd p) (files c)"
    and "workingFiles (checkout (getId c) s) = [length (heap s)..<length (heap s) + length (files c)]"
    and "commits (checkout (getId c) s) = commits s"
    and "stagedFiles (checkout (getId c) s) = stagedFiles s"
    and "nextCommitId (checkout (getId c) s) = nextCommitId s"
  by (simp_all add: checkout_def find_commit [OF assms] getSnapshot_eq [OF assms] Let_def
        cout_def checkout_loop_core snapshot_addrs)

lemma checkout_ok:
  assumes w: "wellformed s"
  shows "wellformed (checkout i s) \<and> extends s (checkout i s) \<and> commits (checkout i s) = commits s"
proof (cases "find (\<lambda>c. getId c = i) (commits s)")
  case None
  then have "checkout i s = cout ''Commit ID not found!'' s"
    by (simp add: checkout_def)
  then have "core (checkout i s) = core s" by simp
  with w show ?thesis
    using core_ok [of "checkout i s" s] core_fields [of "checkout i s" s] by simp
next
  case (Some c)
  then have c: "c \<in> set (commits s)" and i: "getId c = i"
    by (auto simp: find_Some_iff)
  let ?s' = "checkout (getId c) s"
  note f = checkout_found [OF w c]
  have ow: "owned ?s' = owned s"
    by (simp add: owned_def f(3))
  have old: "heap ?s' ! a = heap s ! a" if "a < length (heap s)" for a
    using that by (simp add: f(1) nth_append)
  have wf': "wellformed ?s'"
  proof (rule wfI)
    fix g assume "g \<in> set (stagedFiles ?s')"
    with w have "g < length (heap s)" by (simp add: f(4) wf_staged)
    then show "g < length (heap ?s')" by (simp add: f(1))
  next
    fix g assume "g \<in> set (workingFiles ?s')"
    then show "g < length (heap ?s')" by (simp add: f(1,2))
  next
    show "distinct (stagedFiles ?s')" using w by (simp add: f(4) wf_distinct)
    show "map getId (commits ?s') = [1..int (length (commits ?s'))]"
      using w by (simp add: f(3) wf_ids)
    show "nextCommitId ?s' = int (length (commits ?s')) + 1"
      using w by (simp add: f(3,5) wf_next)
  next
    fix c' assume "c' \<in> set (commits ?s')"
    with w show "sorted_keys (files c')" by (simp add: f(3) wf_sorted)
  next
    fix c' p assume "c' \<in> set (commits ?s')" "p \<in> set (files c')"
    with w have ok: "snapshot_ok (heap s) p" by (simp add: f(3) wf_snapshot)
    then have "snd p < length (heap s)" by (simp add: snapshot_ok_def)
    with ok old show "snapshot_ok (heap ?s') p"
      by (simp add: snapshot_ok_def f(1))
  next
    fix a assume "a \<in> owned ?s'"
    then have a: "a \<in> owned s" by (simp add: ow)
    with w have "a < length (heap s)" by (rule wf_owned_valid)
    with a w show "a \<notin> set (stagedFiles ?s') \<and> a \<notin> set (workingFiles ?s')"
      using wf_disjoint [of s a] by (simp add: f(2,4))
  qed
  have "extends s ?s'"
    unfolding extends_def ow
    using wf_owned_valid [OF w] old by (auto simp: f(1,3))
  with wf' show ?thesis
    by (simp add: i [symmetric] f(3))
qed

subsection \<open>Every command\<close>

lemma runCommand_ok:
  assumes w: "wellformed s" and r: "runCommand c s = Inr s'"
  shows "wellformed s' \<and> extends s s' \<and>
         (commits s' = commits s \<or>
          (\<exists>C. commits s' = commits s @ [C] \<and> getId C = int (length (commits s)) + 1))"
proof (cases c)
  case (Add fname create editNow)
  with w r have a: "wellformed s' \<and> extends s s'"
    by (simp only: Add_ok)
  from r Add have "commits s' = commits s" by (simp only: commits_Add)
  with a show ?thesis by simp
next
  case (Edit fname newContent)
  with w r have a: "wellformed s' \<and> extends s s'"
    by (simp only: Edit_ok)
  from r Edit have "commits s' = commits s" by (simp only: commits_Edit)
  with a show ?thesis by simp
next
  case (CommitCmd msg now)
  with w r show ?thesis
    using commit_ok [of s msg now s'] by simp
next
  case Log
  with r have "core s' = core s" by auto
  with w show ?thesis
    using core_ok [of s' s] core_fields [of s' s] by simp
next
  case (Checkout i)
  with w r show ?thesis
    using checkout_ok [of s i] by auto
next
  case Unknown
  with r have "core s' = core s" by auto
  with w show ?thesis
    using core_ok [of s' s] core_fields [of s' s] by simp
qed

subsection \<open>Every run\<close>

lemma commit_history:
  assumes w: "wellformed s" and c: "commit msg now s = Inr s'"
  shows "if editableFiles s = [] then commits s' = commits s
         else \<exists>C. commits s' = commits s @ [C] \<and> getId C = nextCommitId s"
proof (cases "editableFiles s = []")
  case True
  with c have "s' = cout ''No edited files to commit! Edit files first.'' s"
    by (simp add: commit_def)
  with True show ?thesis by simp
next
  case False
  have v: "\<forall>f \<in> set (stagedFiles s). f < length (heap s)"
    using w by (simp add: wf_staged)
  from commit_Inr(2) [OF v c False] False show ?thesis
    by auto
qed

lemma runCommand_history:
  assumes w: "wellformed s" and r: "runCommand c s = Inr s'"
  shows "if (\<exists>msg now. c = CommitCmd msg now) \<and> editableFiles s \<noteq> []
         then \<exists>C. commits s' = commits s @ [C] \<and> getId C = nextCommitId s
         else commits s' = commits s"
proof (cases c)
  case (Add fname create editNow)
  with r show ?thesis by (simp only: commits_Add) simp
next
  case (Edit fname newContent)
  with r show ?thesis by (simp only: commits_Edit) simp
next
  case (CommitCmd msg now)
  with w r commit_history [of s msg now s'] show ?thesis
    by (auto split: if_splits)
next
  case Log
  with r have "core s' = core s" by auto
  with Log show ?thesis
    using core_fields [of s' s] by simp
next
  case (Checkout i)
  with w r show ?thesis
    using checkout_ok [of s i] by auto
next
  case Unknown
  with r show ?thesis by auto
qed

lemma run_ok:
  "wellformed s \<Longrightarrow> run cmds s = Inr s' \<Longrightarrow> wellformed s' \<and> extends s s'"
proof (induction cmds arbitrary: s)
  case Nil
  then have "core s' = core s" by auto
  with Nil.prems(1) show ?case by (simp only: core_ok)
next
  case (Cons c cmds)
  let ?p = "cout ''>> '' s"
  have p: "wellformed ?p \<and> extends s ?p"
    using Cons.prems(1) by (intro core_ok) simp_all
  from Cons.prems(2) obtain s1 where 1: "runCommand c ?p = Inr s1" and 2: "run cmds s1 = Inr s'"
    by (auto split: sum.splits)
  from p 1 have s1: "wellformed s1 \<and> extends ?p s1"
    using runCommand_ok [of ?p c s1] by simp
  with 2 have "wellformed s' \<and> extends s1 s'"
    using Cons.IH [of s1] by simp
  moreover from p s1 have "extends s s1"
    by (blast intro: extends_trans)
  ultimately show ?case
    by (blast intro: extends_trans)
qed

lemma wf_Repository: "wellformed (Repository d)"
  by (simp add: wellformed_def Repository_def owned_def)

lemma main_ok: "main cmds d = Inr s \<Longrightarrow> wellformed s"
proof -
  assume m: "main cmds d = Inr s"
  let ?b = "cout ''Mini VCS running. Commands: add <file>, edit <file>, commit <msg>, log, checkout <id>, exit'' (Repository d)"
  have "wellformed ?b"
    using wf_Repository [of d] core_ok [of ?b "Repository d"] by simp
  with m show ?thesis
    using run_ok [of ?b cmds s] by (simp add: main_def)
qed

subsection \<open>The overflow fault is the only way not to return\<close>

text \<open>
  \<^verbatim>\<open>commit\<close> returns unless the counter holds \<^verbatim>\<open>INT_MAX\<close>, and a run of the main loop
  returns when its commands are too few to take the counter there.
\<close>

lemma commit_returns:
  assumes "nextCommitId s \<noteq> INT_MAX"
  shows "\<exists>s'. commit msg now s = Inr s'"
proof (cases "editableFiles s = []")
  case True
  then show ?thesis by (simp add: commit_def)
next
  case False
  with assms show ?thesis
    by (simp add: commit_def Let_def commit_loop_frame create_directory_def split: prod.splits)
qed

lemma runCommand_returns:
  assumes "nextCommitId s \<noteq> INT_MAX"
  shows "\<exists>s'. runCommand c s = Inr s'"
proof (cases c)
  case (Add fname create editNow)
  then show ?thesis
    by (cases "loadFromDisk fname s"; cases "fst (loadFromDisk fname s)")
       (auto simp: Let_def split: prod.splits)
next
  case (Edit fname newContent)
  then show ?thesis by (auto split: option.splits)
next
  case (CommitCmd msg now)
  with assms show ?thesis by (simp add: commit_returns)
qed simp_all

lemma run_returns:
  "wellformed s \<Longrightarrow> int (length (commits s)) + int (length cmds) < INT_MAX \<Longrightarrow>
   \<exists>s'. run cmds s = Inr s'"
proof (induction cmds arbitrary: s)
  case Nil
  show ?case by simp
next
  case (Cons c cmds)
  let ?p = "cout ''>> '' s"
  have "wellformed ?p"
    using Cons.prems(1) core_ok [of ?p s] by simp
  moreover have "commits ?p = commits s" "nextCommitId ?p = nextCommitId s"
    by (simp_all add: cout_def)
  ultimately have p: "wellformed ?p" "commits ?p = commits s" "nextCommitId ?p = nextCommitId s"
    by simp_all
  have "nextCommitId ?p \<noteq> INT_MAX"
    using Cons.prems by (simp add: p wf_next)
  then obtain s1 where 1: "runCommand c ?p = Inr s1"
    using runCommand_returns by blast
  from runCommand_ok [OF p(1) 1] have w1: "wellformed s1"
    by simp
  from runCommand_history [OF p(1) 1] have "length (commits s1) \<le> Suc (length (commits s))"
    by (auto simp: p split: if_splits)
  with Cons.prems(2) have "int (length (commits s1)) + int (length cmds) < INT_MAX"
    by simp
  with w1 obtain s' where "run cmds s1 = Inr s'"
    using Cons.IH by blast
  with 1 show ?case by simp
qed

lemma main_returns:
  "int (length cmds) < INT_MAX \<Longrightarrow> \<exists>s. main cmds d = Inr s"
proof -
  assume l: "int (length cmds) < INT_MAX"
  let ?b = "cout ''Mini VCS running. Commands: add <file>, edit <file>, commit <msg>, log, checkout <id>, exit'' (Repository d)"
  have "wellformed ?b"
    using wf_Repository [of d] core_ok [of ?b "Repository d"] by simp
  moreover have "commits ?b = []"
    by (simp add: cout_def Repository_def)
  ultimately show ?thesis
    using l
    using run_returns [of ?b cmds] by (simp add: main_def)
qed

section \<open>Properties of runs\<close>

text \<open>The definitions a concrete run of the controller is evaluated with.\<close>

lemmas vcs_eval = main_def Repository_def loadFromDisk_def TextFile_def editFile_def
  updateContent_def addFile_def add_track_def checkout_def getSnapshot_def

lemmas checkout_eval = checkout_def getSnapshot_def new_def clone_def cout_def ofstream_def
  Let_def to_string_def digits.simps

lemma wf_ex_history: "wellformed ex_history"
  by (simp add: wellformed_def ex_history_def owned_def sorted_keys_def snapshot_ok_def)

lemma wf_ex_staged: "wellformed ex_staged"
  by (simp add: wellformed_def ex_staged_def owned_def)

subsection \<open>Commit ids\<close>

text \<open>
  C3. In every state the program reaches from a fresh repository, whatever the commands
  were and whatever was on disk (a run that overflows the counter reaches no state: see
  \<open>main_returns\<close>), the history holds the ids 1, 2, 3, ... in this order (the
  commit at position \<open>k\<close>, counted from 0, has id \<open>k + 1\<close>) and the counter is one past
  the last id. From such a state a commit command that finds a modified staged file and
  returns appends exactly one commit, whose id is the length of the history plus one;
  every other command, and a commit with nothing to commit, leaves the history as it is.
  So the k-th successful commit has id k, ids are never reused and the history has no gap.
\<close>

theorem commit_ids_sequential:
  assumes "main cmds d = Inr s"
  shows "(\<forall>k < length (commits s). getId (commits s ! k) = int k + 1) \<and>
         nextCommitId s = int (length (commits s)) + 1 \<and>
         (\<forall>c s'. runCommand c s = Inr s' \<longrightarrow>
            (if (\<exists>msg now. c = CommitCmd msg now) \<and> editableFiles s \<noteq> []
             then \<exists>C. commits s' = commits s @ [C] \<and> getId C = int (length (commits s)) + 1
             else commits s' = commits s))"
proof -
  from assms have w: "wellformed s" by (rule main_ok)
  have k: "getId (commits s ! k) = int k + 1" if "k < length (commits s)" for k
  proof -
    from that have "getId (commits s ! k) = map getId (commits s) ! k" by simp
    also have "\<dots> = [1..int (length (commits s))] ! k" using w by (simp add: wf_ids)
    also have "\<dots> = int k + 1" using that by simp
    finally show ?thesis .
  qed
  note n = wf_next [OF w]
  have "\<forall>c s'. runCommand c s = Inr s' \<longrightarrow>
            (if (\<exists>msg now. c = CommitCmd msg now) \<and> editableFiles s \<noteq> []
             then \<exists>C. commits s' = commits s @ [C] \<and> getId C = int (length (commits s)) + 1
             else commits s' = commits s)"
    using runCommand_history [OF w] unfolding n by blast
  with k n show ?thesis
    by blast
qed

text \<open>A run with one successful commit: the history has one commit, with id 1, and the counter is 2.\<close>

theorem commit_ids_sequential_witness:
  "\<exists>s. main [Add ''a'' True (Some ''hi''), CommitCmd ''first'' ''t''] Map.empty = Inr s \<and>
       length (commits s) = 1 \<and> getId (commits s ! 0) = 1 \<and> nextCommitId s = 2"
proof -
  have "\<exists>s. main [Add ''a'' True (Some ''hi''), CommitCmd ''first'' ''t''] Map.empty = Inr s \<and>
            length (commits s) = 1"
    by (simp add: vcs_eval new_def cout_def ofstream_def, simp add: commit_eval)
  then obtain s where m: "main [Add ''a'' True (Some ''hi''), CommitCmd ''first'' ''t''] Map.empty = Inr s"
    and l: "length (commits s) = 1"
    by blast
  from commit_ids_sequential [OF m] l have "getId (commits s ! 0) = 1 \<and> nextCommitId s = 2"
    by simp
  with m l show ?thesis
    by blast
qed

subsection \<open>Adding the same file name twice\<close>

text \<open>
  C5. The claim (adding a file name twice leaves one staged entry of that name) does not
  hold of the program: \<^verbatim>\<open>loadFromDisk\<close> allocates a new object at every \<^verbatim>\<open>add\<close>, and
  both \<^verbatim>\<open>std::find\<close> guards compare pointers, so neither can fire. With \<^verbatim>\<open>a.txt\<close> on
  disk, the commands \<^verbatim>\<open>add a.txt\<close>, \<^verbatim>\<open>add a.txt\<close> leave two staged entries and two working
  entries, both named \<^verbatim>\<open>a.txt\<close>.
\<close>

theorem add_twice_stages_two_entries:
  "\<exists>s. main [Add ''a.txt'' False None, Add ''a.txt'' False None] [''a.txt'' \<mapsto> ''hello''] = Inr s \<and>
       stagedFiles s = [0, 1] \<and> workingFiles s = [0, 1] \<and>
       map (\<lambda>f. name (heap s ! f)) (stagedFiles s) = [''a.txt'', ''a.txt'']"
  by (simp add: vcs_eval new_def cout_def)

text \<open>What the guard of \<^verbatim>\<open>addFile\<close> does give: staging the same pointer again changes nothing.\<close>

lemma addFile_idem: "addFile f (addFile f s) = addFile f s"
  by (simp add: addFile_def cout_def)

subsection \<open>Checkout of a commit of the history\<close>

lemma checkout_cells:
  assumes "wellformed s" and "c \<in> set (commits s)"
  shows "map (\<lambda>f. heap (checkout (getId c) s) ! f) (workingFiles (checkout (getId c) s))
           = map (\<lambda>p. heap s ! snd p) (files c)"
proof (rule nth_equalityI)
  note f = checkout_found [OF assms]
  show "length (map (\<lambda>f. heap (checkout (getId c) s) ! f) (workingFiles (checkout (getId c) s)))
          = length (map (\<lambda>p. heap s ! snd p) (files c))"
    by (simp add: f(2))
  fix i
  assume "i < length (map (\<lambda>f. heap (checkout (getId c) s) ! f) (workingFiles (checkout (getId c) s)))"
  then have i: "i < length (files c)"
    by (simp add: f(2))
  then show "map (\<lambda>f. heap (checkout (getId c) s) ! f) (workingFiles (checkout (getId c) s)) ! i
               = map (\<lambda>p. heap s ! snd p) (files c) ! i"
    by (simp add: f(1,2) nth_append)
qed


text \<open>
  C1, as the specification states it, fails in its last words: a checkout does not
  discard content that was staged and not committed. In the run below \<^verbatim>\<open>a.txt\<close> is
  committed with \<^verbatim>\<open>hi\<close>, commit 1 is checked out, the restored file is edited to
  \<^verbatim>\<open>bye\<close>, and commit 1 is checked out again. The working vector then holds \<^verbatim>\<open>a.txt\<close>
  with \<^verbatim>\<open>hi\<close>, but the edited object is still in the staging vector, modified, with
  \<^verbatim>\<open>bye\<close> staged; a commit issued next records \<^verbatim>\<open>bye\<close> as commit 2 and writes it to
  \<^verbatim>\<open>a.txt\<close> on disk while the working vector still shows \<^verbatim>\<open>hi\<close>.
\<close>

theorem checkout_keeps_staged_edit_counterexample:
  "map_sum id
     (\<lambda>s. (map (\<lambda>f. (name (heap s ! f), stagedContent (heap s ! f), modified (heap s ! f)))
               (stagedFiles s),
           map (\<lambda>f. (name (heap s ! f), content (heap s ! f))) (workingFiles s)))
     (main [Add ''a.txt'' False None, Edit ''a.txt'' ''hi'', CommitCmd ''first'' ''t'',
            Checkout 1, Edit ''a.txt'' ''bye'', Checkout 1]
        [''a.txt'' \<mapsto> ''hello''])
   = Inr ([(''a.txt'', ''bye'', True)], [(''a.txt'', ''hi'')]) \<and>
   map_sum id
     (\<lambda>s. (map (\<lambda>c. (getId c, map (\<lambda>p. (fst p, content (heap s ! snd p))) (files c)))
               (commits s),
           map (\<lambda>f. (name (heap s ! f), content (heap s ! f))) (workingFiles s),
           disk s ''a.txt''))
     (main [Add ''a.txt'' False None, Edit ''a.txt'' ''hi'', CommitCmd ''first'' ''t'',
            Checkout 1, Edit ''a.txt'' ''bye'', Checkout 1, CommitCmd ''second'' ''t'']
        [''a.txt'' \<mapsto> ''hello''])
   = Inr ([(1, [(''a.txt'', ''hi'')]), (2, [(''a.txt'', ''bye'')])], [(''a.txt'', ''hi'')],
          Some ''bye'')"
  apply (simp add: vcs_eval new_def cout_def ofstream_def)
  apply (simp add: commit_eval)
  apply (simp add: checkout_eval vcs_eval)
  apply (simp add: commit_eval)
  done

text \<open>
  C1, amended. Let the state be well formed, let \<open>c\<close> be a commit of the history, and let
  \<^verbatim>\<open>checkout\<close> be called with its id. Afterwards the working vector holds one file per
  entry of \<open>c\<close>'s map, in key order: the names are the keys (which are distinct), and the
  contents are the contents of \<open>c\<close>'s snapshot cells. Every restored file has its staged
  content equal to that content and is not modified. No pointer of the old working vector
  is in the new one, and a file of the old working vector whose name is not a key of \<open>c\<close>
  has no file of its name in the new one: the working vector is replaced as a whole. The
  history is unchanged and so are \<open>c\<close>'s snapshot cells. The staging vector is the one
  before the call and every heap cell that existed before the call holds what it held: a
  file staged before the call is staged after it, with the same staged content and the
  same modified flag.
\<close>

theorem checkout_replaces_working_set:
  assumes "wellformed s" and "c \<in> set (commits s)" and "checkout (getId c) s = s'"
  shows "map (\<lambda>f. name (heap s' ! f)) (workingFiles s') = map fst (files c) \<and>
         distinct (map fst (files c)) \<and>
         map (\<lambda>f. content (heap s' ! f)) (workingFiles s')
           = map (\<lambda>p. content (heap s ! snd p)) (files c) \<and>
         (\<forall>f \<in> set (workingFiles s').
            stagedContent (heap s' ! f) = content (heap s' ! f) \<and> \<not> modified (heap s' ! f)) \<and>
         set (workingFiles s') \<inter> set (workingFiles s) = {} \<and>
         (\<forall>g \<in> set (workingFiles s).
            name (heap s ! g) \<notin> fst ` set (files c) \<longrightarrow>
            name (heap s ! g) \<notin> (\<lambda>f. name (heap s' ! f)) ` set (workingFiles s')) \<and>
         commits s' = commits s \<and>
         (\<forall>p \<in> set (files c). heap s' ! snd p = heap s ! snd p) \<and>
         stagedFiles s' = stagedFiles s \<and>
         (\<forall>a < length (heap s). heap s' ! a = heap s ! a)"
proof -
  note f = checkout_found [OF assms(1,2), unfolded assms(3)]
  note cells = checkout_cells [OF assms(1,2), unfolded assms(3)]
  have ok: "snapshot_ok (heap s) p" if "p \<in> set (files c)" for p
    using assms(1,2) that by (rule wf_snapshot)
  have "map (\<lambda>f. name (heap s' ! f)) (workingFiles s')
          = map name (map (\<lambda>f. heap s' ! f) (workingFiles s'))"
    by simp
  also have "\<dots> = map (\<lambda>p. name (heap s ! snd p)) (files c)"
    by (simp add: cells)
  also have "\<dots> = map fst (files c)"
    using ok by (simp add: snapshot_ok_def)
  finally have names: "map (\<lambda>f. name (heap s' ! f)) (workingFiles s') = map fst (files c)" .
  have "sorted_wrt (<) (map fst (files c))"
    using wf_sorted [OF assms(1,2)] by (simp add: sorted_keys_def)
  then have dist: "distinct (map fst (files c))"
    by (simp add: strict_sorted_iff)
  have "map (\<lambda>f. content (heap s' ! f)) (workingFiles s')
          = map content (map (\<lambda>f. heap s' ! f) (workingFiles s'))"
    by simp
  also have "\<dots> = map (\<lambda>p. content (heap s ! snd p)) (files c)"
    by (simp add: cells)
  finally have contents: "map (\<lambda>f. content (heap s' ! f)) (workingFiles s')
          = map (\<lambda>p. content (heap s ! snd p)) (files c)" .
  have clean: "stagedContent (heap s' ! g) = content (heap s' ! g) \<and> \<not> modified (heap s' ! g)"
    if "g \<in> set (workingFiles s')" for g
  proof -
    from that have "heap s' ! g \<in> set (map (\<lambda>f. heap s' ! f) (workingFiles s'))"
      by simp
    then obtain p where "p \<in> set (files c)" "heap s' ! g = heap s ! snd p"
      unfolding cells by auto
    with ok [of p] show ?thesis
      by (simp add: snapshot_ok_def)
  qed
  have fresh: "set (workingFiles s') \<inter> set (workingFiles s) = {}"
    using assms(1) by (auto simp: f(2) dest: wf_working)
  have absent: "name (heap s ! g) \<notin> (\<lambda>f. name (heap s' ! f)) ` set (workingFiles s')"
    if "name (heap s ! g) \<notin> fst ` set (files c)" for g
  proof -
    have "(\<lambda>f. name (heap s' ! f)) ` set (workingFiles s') = fst ` set (files c)"
      using arg_cong [OF names, of set] by simp
    with that show ?thesis by simp
  qed
  have kept: "heap s' ! snd p = heap s ! snd p" if "p \<in> set (files c)" for p
    using ok [OF that] by (simp add: f(1) nth_append snapshot_ok_def)
  have cellsame: "heap s' ! a = heap s ! a" if "a < length (heap s)" for a
    using that by (simp add: f(1) nth_append)
  from names dist contents clean fresh absent kept f(3,4) cellsame show ?thesis
    by blast
qed

text \<open>
  The hypotheses hold at \<open>ex_history\<close>, whose working vector holds \<^verbatim>\<open>b\<close>, \<^verbatim>\<open>a\<close> (edited to
  \<^verbatim>\<open>bye\<close>) and \<^verbatim>\<open>c\<close>: after checking out commit 1 it holds two new files, \<^verbatim>\<open>a\<close> with
  content \<^verbatim>\<open>y\<close> and \<^verbatim>\<open>b\<close> with content \<^verbatim>\<open>x\<close>, and the old \<^verbatim>\<open>a\<close> at address 1 is still
  staged and modified, with \<^verbatim>\<open>bye\<close> staged.
\<close>

theorem checkout_replaces_working_set_witness:
  "wellformed ex_history \<and>
   commits ex_history = [\<lparr>getId = 1, message = ''first'', timestamp = ''t'',
                           files = [(''a'', 4), (''b'', 3)]\<rparr>] \<and>
   workingFiles ex_history = [0, 1, 2] \<and>
   workingFiles (checkout 1 ex_history) = [5, 6] \<and>
   map (\<lambda>f. name (heap (checkout 1 ex_history) ! f)) (workingFiles (checkout 1 ex_history))
     = [''a'', ''b''] \<and>
   map (\<lambda>f. content (heap (checkout 1 ex_history) ! f)) (workingFiles (checkout 1 ex_history))
     = [''y'', ''x''] \<and>
   stagedFiles (checkout 1 ex_history) = [2, 1] \<and>
   modified (heap (checkout 1 ex_history) ! 1) \<and>
   stagedContent (heap (checkout 1 ex_history) ! 1) = ''bye''"
  using checkout_replaces_working_set [of ex_history
      "\<lparr>getId = 1, message = ''first'', timestamp = ''t'', files = [(''a'', 4), (''b'', 3)]\<rparr>"
      "checkout 1 ex_history"] wf_ex_history
  by (simp add: ex_history_def checkout_eval)

subsection \<open>Snapshots are frozen\<close>

lemma map_of_rev_last:
  "k \<notin> fst ` set ys \<Longrightarrow> map_of (rev (xs @ (k, v) # ys)) k = Some v"
proof -
  assume "k \<notin> fst ` set ys"
  then have "map_of (rev ys) k = None"
    by (simp add: map_of_eq_None_iff)
  then show ?thesis
    by (simp add: map_add_def)
qed

lemma clone_keys:
  "fst ` set (map (\<lambda>(a, g). (name (h ! g), a)) (enumerate m fs)) = (\<lambda>g. name (h ! g)) ` set fs"
  by (induction fs arbitrary: m) auto

lemma clearModified_record:
  "clearModified x =
     \<lparr>name = name x, content = stagedContent x, stagedContent = stagedContent x, modified = False\<rparr>"
  by (cases x) (simp add: clearModified_def)

text \<open>
  C2. Let the state be well formed and let \<^verbatim>\<open>commit\<close> return normally. Let \<open>f\<close> be a
  modified staged file that no later modified staged file shares its name with, so that
  the commit's entry under that name is \<open>f\<close>'s clone. Then the new commit \<open>C\<close> has an
  entry for \<open>f\<close>'s name, and the cell of that entry holds the content that was staged in
  \<open>f\<close> when \<^verbatim>\<open>commit\<close> was called. After any further run of commands \<open>C\<close> is still in
  the history and the cell is the same, and a call of \<^verbatim>\<open>updateContent\<close> on \<open>f\<close> then,
  with any content, leaves it the same.
\<close>

theorem snapshot_frozen:
  assumes w: "wellformed s"
    and c: "commit msg now s = Inr s1"
    and e: "editableFiles s = pre @ f # post"
    and l: "name (heap s ! f) \<notin> (\<lambda>g. name (heap s ! g)) ` set post"
    and r: "run cmds s1 = Inr s2"
  shows "\<exists>C a. commits s1 = commits s @ [C] \<and> C \<in> set (commits s2) \<and>
           map_of (files C) (name (heap s ! f)) = Some a \<and>
           heap s1 ! a = \<lparr>name = name (heap s ! f), content = stagedContent (heap s ! f),
                           stagedContent = stagedContent (heap s ! f), modified = False\<rparr> \<and>
           heap s2 ! a = heap s1 ! a \<and>
           (\<forall>x. (heap s2)[f := updateContent x (heap s2 ! f)] ! a = heap s1 ! a)"
proof -
  let ?h = "heap s"
  let ?n = "length (heap s)"
  let ?ed = "editableFiles s"
  let ?k = "name (?h ! f)"
  let ?a = "?n + length pre"
  let ?L = "map (\<lambda>(a, g). (name (?h ! g), a)) (enumerate ?n ?ed)"
  have v: "\<forall>g \<in> set (stagedFiles s). g < ?n"
    using w by (simp add: wf_staged)
  have ne: "?ed \<noteq> []"
    using e by simp
  have fed: "f \<in> set ?ed"
    using e by simp
  then have fn: "f < ?n"
    using v by (simp add: editableFiles_def)
  note facts = commit_Inr [OF v c ne]
  obtain ts where C: "commits s1 = commits s @
      [\<lparr>getId = nextCommitId s, message = msg, timestamp = ts, files = assign_all ?L []\<rparr>]"
    using facts(2) by blast
  let ?C = "\<lparr>getId = nextCommitId s, message = msg, timestamp = ts, files = assign_all ?L []\<rparr>"
  have L: "?L = map (\<lambda>(a, g). (name (?h ! g), a)) (enumerate ?n pre) @ (?k, ?a) #
                map (\<lambda>(a, g). (name (?h ! g), a)) (enumerate (Suc ?a) post)"
    by (simp add: e enumerate_append_eq)
  have "map_of (files ?C) ?k = map_of (rev ?L) ?k"
    by (simp add: map_of_assign_all)
  also have "\<dots> = Some ?a"
  proof -
    have "?k \<notin> fst ` set (map (\<lambda>(a, g). (name (?h ! g), a)) (enumerate (Suc ?a) post))"
      unfolding clone_keys by (rule l)
    then show ?thesis
      unfolding L by (rule map_of_rev_last)
  qed
  finally have m: "map_of (files ?C) ?k = Some ?a" .
  have cell: "heap s1 ! ?a = clearModified (?h ! f)"
    using fed fn by (simp add: facts(1) nth_append nth_cleared e)
  from commit_ok [OF w c] have w1: "wellformed s1"
    by simp
  from run_ok [OF w1 r] have x: "extends s1 s2"
    by simp
  have "(?k, ?a) \<in> set (files ?C)"
    using m by (rule map_of_SomeD)
  then have "snd (?k, ?a) \<in> owned s1"
    by (intro ownedI [of ?C]) (simp_all add: C)
  then have o: "?a \<in> owned s1"
    by simp
  with x have keep: "heap s2 ! ?a = heap s1 ! ?a"
    by (simp add: extends_def)
  have "f \<noteq> ?a"
    using fn by simp
  then have upd: "(heap s2)[f := updateContent x (heap s2 ! f)] ! ?a = heap s1 ! ?a" for x
    by (simp add: keep)
  from x obtain cs where "commits s2 = commits s1 @ cs"
    by (auto simp: extends_def)
  then have "?C \<in> set (commits s2)"
    by (simp add: C)
  with C m cell keep upd show ?thesis
    by (auto simp: clearModified_record)
qed

text \<open>
  The hypotheses hold at \<open>ex_staged\<close> for the file \<^verbatim>\<open>a\<close> at address 1: after the commit
  and the command \<^verbatim>\<open>edit a\<close> with the line \<^verbatim>\<open>bye\<close>, the file is modified with staged
  content \<^verbatim>\<open>bye\<close> and the commit's cell 4 still holds \<^verbatim>\<open>y\<close>.
\<close>

theorem snapshot_frozen_witness:
  "wellformed ex_staged \<and> commit ''first'' ''t'' ex_staged = Inr ex_committed \<and>
   editableFiles ex_staged = [0] @ 1 # [] \<and>
   (\<exists>s2. run [Edit ''a'' ''bye''] ex_committed = Inr s2 \<and>
         stagedContent (heap s2 ! 1) = ''bye'' \<and> modified (heap s2 ! 1) \<and>
         heap s2 ! 4 = \<lparr>name = ''a'', content = ''y'', stagedContent = ''y'', modified = False\<rparr>)"
proof -
  have e: "editableFiles ex_staged = [0] @ 1 # []"
    by (simp add: editableFiles_def ex_staged_def)
  have "\<exists>s2. run [Edit ''a'' ''bye''] ex_committed = Inr s2 \<and>
         stagedContent (heap s2 ! 1) = ''bye'' \<and> modified (heap s2 ! 1)"
    by (simp add: ex_committed_def vcs_eval cout_def)
  then obtain s2 where r: "run [Edit ''a'' ''bye''] ex_committed = Inr s2"
    and b: "stagedContent (heap s2 ! 1) = ''bye''" "modified (heap s2 ! 1)"
    by blast
  from snapshot_frozen [OF wf_ex_staged ex_commit e _ r]
  have "heap s2 ! 4 = \<lparr>name = ''a'', content = ''y'', stagedContent = ''y'', modified = False\<rparr>"
    by (auto simp: ex_staged_def ex_committed_def)
  with wf_ex_staged ex_commit e r b show ?thesis
    by blast
qed

subsection \<open>Restored files are clones\<close>



end
